theory Spec2Isabelle
  imports Complex_Main "HOL-Library.Char_ord" "HOL-Library.List_Lexorder"
begin

section \<open>Values, errors and the scorer\<close>

text \<open>
  A configuration list of the Python source holds \<^verbatim>\<open>str\<close> identifiers, but
  \<^verbatim>\<open>_select_sequential\<close> starts from \<^verbatim>\<open>best_next_config = None\<close> and
  \<^verbatim>\<open>select_zeroshot_configs\<close> appends whatever the selector returns, so the elements
  of a list are Python values that are either a string or \<^verbatim>\<open>None\<close>.

  Scores are Python numbers. They are only compared and, in the pruning stage, added to
  the threshold; they are modelled as real numbers (no NaN, no rounding). The scorer is an
  external object whose \<^verbatim>\<open>score\<close> method is taken to be a deterministic total
  function of the list it is given.
\<close>

datatype pyval = PyNone | PyStr string

datatype error = ValueError | KeyError | IndexError | AssertionError

type_synonym scorer = "pyval list \<Rightarrow> real"

datatype backend = Ray | Sequential

section \<open>The two selectors\<close>

text \<open>\<^verbatim>\<open>score_config_ray\<close>: the remote task, one per candidate.\<close>

definition score_config_ray :: "scorer \<Rightarrow> pyval list \<Rightarrow> pyval \<Rightarrow> real" where
  "score_config_ray config_scorer existing_configs new_config =
     config_scorer (existing_configs @ [new_config])"

text \<open>
  The \<^verbatim>\<open>for\<close> loop of \<^verbatim>\<open>_select_sequential\<close>, with the two variables it updates.
\<close>

fun select_sequential_loop ::
  "pyval list \<Rightarrow> pyval list \<Rightarrow> scorer \<Rightarrow> pyval \<Rightarrow> real \<Rightarrow> pyval \<times> real" where
  "select_sequential_loop [] prior_configs config_scorer best_next_config best_score =
     (best_next_config, best_score)"
| "select_sequential_loop (config # configs) prior_configs config_scorer best_next_config best_score =
     (let config_selected = prior_configs @ [config];
          config_score = config_scorer config_selected
      in if config_score < best_score
         then select_sequential_loop configs prior_configs config_scorer config config_score
         else select_sequential_loop configs prior_configs config_scorer best_next_config best_score)"

definition select_sequential :: "pyval list \<Rightarrow> pyval list \<Rightarrow> scorer \<Rightarrow> pyval \<times> real" where
  "select_sequential configs prior_configs config_scorer =
     select_sequential_loop configs prior_configs config_scorer PyNone 999999999"

text \<open>
  \<^verbatim>\<open>list.index\<close>: the position of the first element equal to the value,
  \<^verbatim>\<open>ValueError\<close> when there is none.
\<close>

fun index_py :: "'a list \<Rightarrow> 'a \<Rightarrow> error + nat" where
  "index_py [] v = Inl ValueError"
| "index_py (x # xs) v =
     (if x = v then Inr 0
      else (case index_py xs v of Inl e \<Rightarrow> Inl e | Inr i \<Rightarrow> Inr (Suc i)))"

text \<open>
  \<^verbatim>\<open>_select_ray\<close>: \<^verbatim>\<open>ray.get\<close> returns the scores in submission order;
  \<^verbatim>\<open>min\<close> of an empty list raises \<^verbatim>\<open>ValueError\<close>.
\<close>

definition select_ray :: "pyval list \<Rightarrow> pyval list \<Rightarrow> scorer \<Rightarrow> error + pyval \<times> real" where
  "select_ray configs prior_configs config_scorer =
     (let result = map (\<lambda>c. score_config_ray config_scorer prior_configs c) configs
      in if result = [] then Inl ValueError
         else (case index_py result (min_list result) of
                 Inl e \<Rightarrow> Inl e
               | Inr result_idx_min \<Rightarrow>
                   Inr (configs ! result_idx_min, result ! result_idx_min)))"

definition selector :: "backend \<Rightarrow> pyval list \<Rightarrow> pyval list \<Rightarrow> scorer \<Rightarrow> error + pyval \<times> real" where
  "selector b configs prior_configs config_scorer =
     (case b of
        Ray \<Rightarrow> select_ray configs prior_configs config_scorer
      | Sequential \<Rightarrow> Inr (select_sequential configs prior_configs config_scorer))"

section \<open>Forward selection\<close>

text \<open>
  The \<^verbatim>\<open>while\<close> loop of \<^verbatim>\<open>select_zeroshot_configs\<close>. Its state is the
  list \<^verbatim>\<open>zeroshot_configs\<close>; the model also keeps a log of the calls of the selector,
  each with its two list arguments, since the candidates are scored inside the selector
  and nowhere else in the loop. The progress line that is printed, and the optional test
  scorer that only feeds it, are left out.
\<close>

function select_loop ::
  "backend \<Rightarrow> scorer \<Rightarrow> pyval list \<Rightarrow> int \<Rightarrow> pyval list \<Rightarrow> (pyval list \<times> pyval list) list
     \<Rightarrow> error + pyval list \<times> (pyval list \<times> pyval list) list" where
  "select_loop b config_scorer all_configs num_zeroshot zeroshot_configs calls =
     (if int (length zeroshot_configs) < num_zeroshot
      then (let valid_configs = filter (\<lambda>c. c \<notin> set zeroshot_configs) all_configs
            in if valid_configs = [] then Inr (zeroshot_configs, calls)
               else (case selector b valid_configs zeroshot_configs config_scorer of
                       Inl e \<Rightarrow> Inl e
                     | Inr r \<Rightarrow>
                         select_loop b config_scorer all_configs num_zeroshot
                           (zeroshot_configs @ [fst r])
                           (calls @ [(valid_configs, zeroshot_configs)])))
      else Inr (zeroshot_configs, calls))"
  by pat_completeness auto
termination
  by (relation "measure (\<lambda>(b, sc, al, n, zs, calls). nat (n - int (length zs)))") auto

declare select_loop.simps [simp del]

section \<open>Backward pruning\<close>

text \<open>
  One pass of the \<^verbatim>\<open>for\<close> loop of \<^verbatim>\<open>prune_zeroshot_configs\<close> over the portfolio
  \<open>zeroshot_configs\<close>, with the variables \<^verbatim>\<open>best_score\<close> and
  \<^verbatim>\<open>best_remove_config\<close> it updates. The test \<^verbatim>\<open>best_remove_config is None\<close> is
  on the value, so a \<^verbatim>\<open>None\<close> element that is accepted leaves it true.
\<close>

fun prune_round ::
  "(real \<Rightarrow> real \<Rightarrow> real) \<Rightarrow> scorer \<Rightarrow> real \<Rightarrow> pyval list \<Rightarrow> pyval list \<Rightarrow> real \<Rightarrow> pyval \<Rightarrow> real \<times> pyval" where
  "prune_round float_add config_scorer removal_threshold zeroshot_configs [] best_score best_remove_config =
     (best_score, best_remove_config)"
| "prune_round float_add config_scorer removal_threshold zeroshot_configs (config # rest) best_score best_remove_config =
     (let config_selected = filter (\<lambda>c. c \<noteq> config) zeroshot_configs;
          config_score = config_scorer config_selected
      in if best_remove_config = PyNone
         then (if config_score \<le> float_add best_score removal_threshold
               then prune_round float_add config_scorer removal_threshold zeroshot_configs rest config_score config
               else prune_round float_add config_scorer removal_threshold zeroshot_configs rest best_score best_remove_config)
         else (if config_score \<le> best_score
               then prune_round float_add config_scorer removal_threshold zeroshot_configs rest config_score config
               else prune_round float_add config_scorer removal_threshold zeroshot_configs rest best_score best_remove_config))"

text \<open>\<^verbatim>\<open>list.remove\<close>: deletes the first occurrence, \<^verbatim>\<open>ValueError\<close> when there is none.\<close>

definition remove_py :: "'a list \<Rightarrow> 'a \<Rightarrow> error + 'a list" where
  "remove_py xs x = (if x \<in> set xs then Inr (remove1 x xs) else Inl ValueError)"

function prune_loop ::
  "(real \<Rightarrow> real \<Rightarrow> real) \<Rightarrow> scorer \<Rightarrow> real \<Rightarrow> pyval list \<Rightarrow> real \<Rightarrow> error + pyval list" where
  "prune_loop float_add config_scorer removal_threshold zeroshot_configs best_score =
     (let r = prune_round float_add config_scorer removal_threshold zeroshot_configs zeroshot_configs
                best_score PyNone
      in if snd r \<noteq> PyNone
         then (case remove_py zeroshot_configs (snd r) of
                 Inl e \<Rightarrow> Inl e
               | Inr zs \<Rightarrow> prune_loop float_add config_scorer removal_threshold zs (fst r))
         else Inr zeroshot_configs)"
  by pat_completeness auto
termination
proof (relation "measure (\<lambda>(fa, sc, thr, zs, b). length zs)")
  show "wf (measure (\<lambda>(fa, sc, thr, zs, b). length (zs :: pyval list)))"
    by simp
next
  fix float_add :: "real \<Rightarrow> real \<Rightarrow> real" and config_scorer :: scorer
    and removal_threshold best_score :: real
    and zeroshot_configs zs :: "pyval list" and r :: "real \<times> pyval"
  assume "remove_py zeroshot_configs (snd r) = Inr zs"
  then have "snd r \<in> set zeroshot_configs" and "zs = remove1 (snd r) zeroshot_configs"
    by (auto simp: remove_py_def split: if_splits)
  then have "length zs < length zeroshot_configs"
    using length_pos_if_in_set [of "snd r" zeroshot_configs] by (simp add: length_remove1)
  then show "((float_add, config_scorer, removal_threshold, zs, fst r),
              (float_add, config_scorer, removal_threshold, zeroshot_configs, best_score))
             \<in> measure (\<lambda>(fa, sc, thr, zs, b). length zs)"
    by simp
qed

declare prune_loop.simps [simp del]

definition prune_zeroshot_configs ::
  "(real \<Rightarrow> real \<Rightarrow> real) \<Rightarrow> scorer \<Rightarrow> pyval list \<Rightarrow> real \<Rightarrow> error + pyval list" where
  "prune_zeroshot_configs float_add config_scorer zeroshot_configs removal_threshold =
     prune_loop float_add config_scorer removal_threshold zeroshot_configs (config_scorer zeroshot_configs)"

text \<open>
  \<^verbatim>\<open>select_zeroshot_configs\<close>: the prior portfolio is optional (\<^verbatim>\<open>None\<close> stands for
  the empty list), the pruning stage runs with the generator's own scorer.
\<close>

definition select_zeroshot_configs ::
  "(real \<Rightarrow> real \<Rightarrow> real) \<Rightarrow> backend \<Rightarrow> scorer \<Rightarrow> pyval list \<Rightarrow> int \<Rightarrow> pyval list option \<Rightarrow> bool \<Rightarrow> real
     \<Rightarrow> error + pyval list" where
  "select_zeroshot_configs float_add b config_scorer all_configs num_zeroshot zeroshot_configs
       removal_stage removal_threshold =
     (let zs0 = (case zeroshot_configs of None \<Rightarrow> [] | Some zs \<Rightarrow> zs)
      in case select_loop b config_scorer all_configs num_zeroshot zs0 [] of
           Inl e \<Rightarrow> Inl e
         | Inr st \<Rightarrow>
             if removal_stage
             then prune_zeroshot_configs float_add config_scorer (fst st) removal_threshold
             else Inr (fst st))"

section \<open>Scorers of the examples\<close>

text \<open>A scorer whose every score is just above the initial value of \<^verbatim>\<open>best_score\<close>.\<close>

definition sentinel_scorer :: scorer where
  "sentinel_scorer configs = 1000000000"

text \<open>A scorer that prefers lists with \<open>B\<close>, with every score above that initial value.\<close>

definition late_best_scorer :: scorer where
  "late_best_scorer configs = (if PyStr ''B'' \<in> set configs then 1000000000 else 2000000000)"

text \<open>A scorer that prefers lists with \<open>B\<close>, with small scores.\<close>

definition small_scorer :: scorer where
  "small_scorer configs = (if PyStr ''B'' \<in> set configs then 1 else 2)"

text \<open>A scorer that penalises \<open>B\<close> and the absence of \<open>A\<close> or \<open>C\<close>.\<close>

definition keep_ac_scorer :: scorer where
  "keep_ac_scorer configs =
     (if PyStr ''B'' \<in> set configs then 1 else 0)
     + (if PyStr ''A'' \<in> set configs then 0 else 1)
     + (if PyStr ''C'' \<in> set configs then 0 else 1)"

text \<open>
  The addition of the examples. Their scores and thresholds are small integers, on which
  the addition of floats is exact.
\<close>

definition exact_add :: "real \<Rightarrow> real \<Rightarrow> real" where
  "exact_add x y = x + y"

section \<open>The lists as objects\<close>

text \<open>
  The lists of the Python source are objects that the caller and the methods share by
  reference. To speak about what a call changes, the list objects live in a store: each has
  an address, \<open>cells\<close> maps an address to the content of the list there, and the addresses
  below \<open>next_addr\<close> are the objects that exist. A new list (\<^verbatim>\<open>[]\<close>,
  \<^verbatim>\<open>copy.deepcopy\<close>) takes the next address; \<^verbatim>\<open>append\<close> and \<^verbatim>\<open>remove\<close>
  change the object they are called on. The elements are immutable values, so a deep copy
  is a new list with the same content. The lists built by comprehensions and by \<^verbatim>\<open>+\<close>
  are passed to the scorer and dropped; they are kept as values. The scorer is taken not to
  change the list it is given.
\<close>

record heap =
  cells :: "nat \<Rightarrow> pyval list"
  next_addr :: nat

definition alloc :: "heap \<Rightarrow> pyval list \<Rightarrow> nat \<times> heap" where
  "alloc h xs =
     (next_addr h, h\<lparr>cells := (cells h)(next_addr h := xs), next_addr := Suc (next_addr h)\<rparr>)"

definition deepcopy :: "heap \<Rightarrow> nat \<Rightarrow> nat \<times> heap" where
  "deepcopy h a = alloc h (cells h a)"

definition append_at :: "heap \<Rightarrow> nat \<Rightarrow> pyval \<Rightarrow> heap" where
  "append_at h a x = h\<lparr>cells := (cells h)(a := cells h a @ [x])\<rparr>"

definition remove_at :: "heap \<Rightarrow> nat \<Rightarrow> pyval \<Rightarrow> error + heap" where
  "remove_at h a x =
     (case remove_py (cells h a) x of
        Inl e \<Rightarrow> Inl e
      | Inr xs \<Rightarrow> Inr (h\<lparr>cells := (cells h)(a := xs)\<rparr>))"

text \<open>
  The loop of \<^verbatim>\<open>select_zeroshot_configs\<close> on the store: \<open>all_configs\<close> is the address
  of the pool held by the generator, \<open>zeroshot_configs\<close> the address the local variable
  refers to.
\<close>

function select_loop_heap ::
  "backend \<Rightarrow> scorer \<Rightarrow> nat \<Rightarrow> int \<Rightarrow> nat \<Rightarrow> heap \<Rightarrow> error + heap" where
  "select_loop_heap b config_scorer all_configs num_zeroshot zeroshot_configs h =
     (if int (length (cells h zeroshot_configs)) < num_zeroshot
      then (let valid_configs =
                  filter (\<lambda>c. c \<notin> set (cells h zeroshot_configs)) (cells h all_configs)
            in if valid_configs = [] then Inr h
               else (case selector b valid_configs (cells h zeroshot_configs) config_scorer of
                       Inl e \<Rightarrow> Inl e
                     | Inr r \<Rightarrow>
                         select_loop_heap b config_scorer all_configs num_zeroshot
                           zeroshot_configs (append_at h zeroshot_configs (fst r))))
      else Inr h)"
  by pat_completeness auto
termination
  by (relation "measure (\<lambda>(b, sc, al, n, zs, h). nat (n - int (length (cells h zs))))")
     (auto simp: append_at_def)

declare select_loop_heap.simps [simp del]

function prune_loop_heap ::
  "(real \<Rightarrow> real \<Rightarrow> real) \<Rightarrow> scorer \<Rightarrow> real \<Rightarrow> nat \<Rightarrow> real \<Rightarrow> heap \<Rightarrow> error + heap" where
  "prune_loop_heap float_add config_scorer removal_threshold zeroshot_configs best_score h =
     (let r = prune_round float_add config_scorer removal_threshold (cells h zeroshot_configs)
                (cells h zeroshot_configs) best_score PyNone
      in if snd r \<noteq> PyNone
         then (case remove_at h zeroshot_configs (snd r) of
                 Inl e \<Rightarrow> Inl e
               | Inr h' \<Rightarrow>
                   prune_loop_heap float_add config_scorer removal_threshold zeroshot_configs (fst r) h')
         else Inr h)"
  by pat_completeness auto
termination
proof (relation "measure (\<lambda>(fa, sc, thr, zs, b, h). length (cells h zs))")
  show "wf (measure (\<lambda>(fa, sc, thr, zs, b, h). length (cells (h :: heap) zs)))"
    by simp
next
  fix float_add :: "real \<Rightarrow> real \<Rightarrow> real" and config_scorer :: scorer
    and removal_threshold best_score :: real
    and zeroshot_configs :: nat and h h' :: heap and r :: "real \<times> pyval"
  assume "remove_at h zeroshot_configs (snd r) = Inr h'"
  then have "snd r \<in> set (cells h zeroshot_configs)"
    and "cells h' zeroshot_configs = remove1 (snd r) (cells h zeroshot_configs)"
    by (auto simp: remove_at_def remove_py_def split: if_splits)
  then have "length (cells h' zeroshot_configs) < length (cells h zeroshot_configs)"
    using length_pos_if_in_set [of "snd r" "cells h zeroshot_configs"]
    by (simp add: length_remove1)
  then show "((float_add, config_scorer, removal_threshold, zeroshot_configs, fst r, h'),
              (float_add, config_scorer, removal_threshold, zeroshot_configs, best_score, h))
             \<in> measure (\<lambda>(fa, sc, thr, zs, b, h). length (cells h zs))"
    by simp
qed

declare prune_loop_heap.simps [simp del]

text \<open>
  \<^verbatim>\<open>prune_zeroshot_configs\<close> on the store: the argument is an address, the local
  variable is rebound to a deep copy, and the address of the copy is returned.
\<close>

definition prune_zeroshot_configs_heap ::
  "(real \<Rightarrow> real \<Rightarrow> real) \<Rightarrow> scorer \<Rightarrow> nat \<Rightarrow> real \<Rightarrow> heap \<Rightarrow> error + nat \<times> heap" where
  "prune_zeroshot_configs_heap float_add config_scorer zeroshot_configs removal_threshold h =
     (let c = deepcopy h zeroshot_configs;
          best_score = config_scorer (cells (snd c) (fst c))
      in case prune_loop_heap float_add config_scorer removal_threshold (fst c) best_score (snd c) of
           Inl e \<Rightarrow> Inl e
         | Inr h' \<Rightarrow> Inr (fst c, h'))"

text \<open>
  \<^verbatim>\<open>select_zeroshot_configs\<close> on the store: the prior portfolio is \<^verbatim>\<open>None\<close> or the
  address of the caller's list.
\<close>

definition select_zeroshot_configs_heap ::
  "(real \<Rightarrow> real \<Rightarrow> real) \<Rightarrow> backend \<Rightarrow> scorer \<Rightarrow> nat \<Rightarrow> int \<Rightarrow> nat option \<Rightarrow> bool \<Rightarrow> real \<Rightarrow> heap
     \<Rightarrow> error + nat \<times> heap" where
  "select_zeroshot_configs_heap float_add b config_scorer all_configs num_zeroshot zeroshot_configs
       removal_stage removal_threshold h =
     (let c = (case zeroshot_configs of None \<Rightarrow> alloc h [] | Some a \<Rightarrow> deepcopy h a)
      in case select_loop_heap b config_scorer all_configs num_zeroshot (fst c) (snd c) of
           Inl e \<Rightarrow> Inl e
         | Inr h' \<Rightarrow>
             if removal_stage
             then prune_zeroshot_configs_heap float_add config_scorer (fst c) removal_threshold h'
             else Inr (fst c, h'))"

text \<open>
  A store of the examples: the pool \<open>A, B, C\<close> at address 0 and the caller's list \<open>B\<close>
  at address 1.
\<close>

definition caller_heap :: heap where
  "caller_heap =
     \<lparr>cells = (\<lambda>a. [])(0 := [PyStr ''A'', PyStr ''B'', PyStr ''C''], 1 := [PyStr ''B'']),
      next_addr = 2\<rparr>"

section \<open>Cross-validation\<close>

text \<open>
  \<^verbatim>\<open>ZeroshotConfigGeneratorCV\<close>. The dataset identifiers of the scorer are strings,
  the parent identifiers they are mapped to are integers of Python. Two collaborators are
  outside the repository and are parameters of the model: the mapping
  \<^verbatim>\<open>dataset_name_to_tid_dict\<close> and the method \<^verbatim>\<open>subset\<close> of the scorer (from a
  list of datasets to the scoring function of the restricted scorer). The arrays of numpy
  and the splitter \<^verbatim>\<open>KFold\<close> of scikit-learn are modelled as far as the constructor and
  \<^verbatim>\<open>run\<close> use them.
\<close>

subsection \<open>Arrays\<close>

text \<open>
  An array of strings (line 150) has a fixed width and pads with the character of code 0:
  an element read back has lost the characters of code 0 at its end.
\<close>

definition np_str :: "string \<Rightarrow> string" where
  "np_str s = rev (dropWhile (\<lambda>c. c = CHR 0x00) (rev s))"

text \<open>
  An array made of a list of integers of Python (line 163) holds 64-bit signed integers
  when all of them fit, 64-bit unsigned integers when all of them are from \<open>0\<close> to
  \<open>2^64 - 1\<close>, and Python objects when one of them is below \<open>- 2^63\<close> or above
  \<open>2^64 - 1\<close>; in these cases an element read back is equal to the integer stored.
  Otherwise (a negative integer together with one from \<open>2^63\<close> on) the array holds
  double-precision floats, and an element read back is the integer rounded to 53
  significant bits, to the nearest, to the even one on a tie. \<open>excess_bits a\<close> is the
  number of bits of \<open>a\<close> beyond 53.
\<close>

function excess_bits :: "nat \<Rightarrow> nat" where
  "excess_bits a = (if a < 2 ^ 53 then 0 else Suc (excess_bits (a div 2)))"
  by pat_completeness auto
termination
  by (relation "measure (\<lambda>a. a)") auto

declare excess_bits.simps [simp del]

definition float64 :: "int \<Rightarrow> int" where
  "float64 x =
     (let a = nat \<bar>x\<bar>;
          e = excess_bits a;
          q = a div 2 ^ e;
          r = a mod 2 ^ e;
          q' = (if 2 ^ e < 2 * r \<or> (2 * r = 2 ^ e \<and> odd q) then q + 1 else q)
      in sgn x * int (q' * 2 ^ e))"

definition np_array :: "int list \<Rightarrow> int list" where
  "np_array xs =
     (if \<forall>x\<in>set xs. - (2 ^ 63) \<le> x \<and> x < 2 ^ 63 then xs
      else if \<forall>x\<in>set xs. 0 \<le> x \<and> x < 2 ^ 64 then xs
      else if \<forall>x\<in>set xs. - (2 ^ 63) \<le> x \<and> x < 2 ^ 64 then map float64 xs
      else xs)"

text \<open>Indexing an array by a list of indices; an index out of range raises.\<close>

definition index_array :: "'a list \<Rightarrow> nat list \<Rightarrow> error + 'a list" where
  "index_array xs idx =
     (if \<forall>i\<in>set idx. i < length xs then Inr (map (\<lambda>i. xs ! i) idx) else Inl IndexError)"

subsection \<open>The random generator\<close>

text \<open>
  The generator of numpy is a parameter of the model, with states of a type \<open>'g\<close>:
  \<^verbatim>\<open>RandomState(seed)\<close> is the state of a new generator made from a seed, and
  \<open>random_interval g max\<close> is the number from \<open>0\<close> to \<open>max\<close> that a generator in state
  \<open>g\<close> draws, with the state it is left in. Nothing is assumed of the two functions: the
  model reduces the number drawn modulo \<open>max + 1\<close>, which leaves a number from \<open>0\<close> to
  \<open>max\<close> as it is.
\<close>

record 'g numpy_random =
  RandomState :: "nat \<Rightarrow> 'g"
  random_interval :: "'g \<Rightarrow> nat \<Rightarrow> nat \<times> 'g"

text \<open>
  \<^verbatim>\<open>shuffle\<close> of a generator, on an array of one dimension: for \<open>i\<close> from the last
  index down to \<open>1\<close>, the element at \<open>i\<close> is exchanged with the element at an index
  drawn from \<open>0\<close> to \<open>i\<close>.
\<close>

fun shuffle_raw :: "'g numpy_random \<Rightarrow> nat \<Rightarrow> 'g \<Rightarrow> 'a list \<Rightarrow> 'a list \<times> 'g" where
  "shuffle_raw np 0 g x = (x, g)"
| "shuffle_raw np (Suc i) g x =
     (case random_interval np g (Suc i) of
        (r, g') \<Rightarrow>
          (let j = r mod Suc (Suc i)
           in shuffle_raw np i g' (x[Suc i := x ! j, j := x ! Suc i])))"

definition np_shuffle :: "'g numpy_random \<Rightarrow> 'g \<Rightarrow> 'a list \<Rightarrow> 'a list \<times> 'g" where
  "np_shuffle np g x = shuffle_raw np (length x - 1) g x"

text \<open>
  \<^verbatim>\<open>check_random_state\<close>: without a seed the generator is the global generator of
  numpy, in the state the program has left it in; with a seed it is a new generator made
  from the seed.
\<close>

definition check_random_state :: "'g numpy_random \<Rightarrow> 'g \<Rightarrow> nat option \<Rightarrow> 'g" where
  "check_random_state np global_state seed =
     (case seed of None \<Rightarrow> global_state | Some s \<Rightarrow> RandomState np s)"

subsection \<open>The splitter\<close>

record KFold =
  kf_n_splits :: int
  kf_shuffle :: bool
  kf_random_state :: "nat option"

text \<open>
  The constructor refuses fewer than two splits, and a seed without shuffling.
\<close>

definition KFold_init :: "int \<Rightarrow> nat option \<Rightarrow> bool \<Rightarrow> error + KFold" where
  "KFold_init n_splits random_state shuffle =
     (if n_splits \<le> 1 then Inl ValueError
      else if \<not> shuffle \<and> random_state \<noteq> None then Inl ValueError
      else Inr \<lparr>kf_n_splits = n_splits, kf_shuffle = shuffle, kf_random_state = random_state\<rparr>)"

text \<open>
  The test indices of the folds: the indices \<open>0, \<dots>, n_samples - 1\<close>, shuffled when the
  splitter shuffles, are cut into \<open>n_splits\<close> consecutive slices, the first
  \<open>n_samples mod n_splits\<close> of size \<open>n_samples div n_splits + 1\<close> and the others of size
  \<open>n_samples div n_splits\<close>.
\<close>

fun slices :: "nat list \<Rightarrow> nat \<Rightarrow> 'a list \<Rightarrow> 'a list list" where
  "slices [] current indices = []"
| "slices (fold_size # fold_sizes) current indices =
     take fold_size (drop current indices) # slices fold_sizes (current + fold_size) indices"

definition iter_test_indices :: "'g numpy_random \<Rightarrow> 'g \<Rightarrow> KFold \<Rightarrow> nat \<Rightarrow> nat list list" where
  "iter_test_indices np global_state kf n_samples =
     (let indices = [0..<n_samples];
          indices = (if kf_shuffle kf
                     then fst (np_shuffle np
                                 (check_random_state np global_state (kf_random_state kf)) indices)
                     else indices);
          n_splits = nat (kf_n_splits kf);
          fold_sizes = map (\<lambda>i. n_samples div n_splits + (if i < n_samples mod n_splits then 1 else 0))
                         [0..<n_splits]
      in slices fold_sizes 0 indices)"

text \<open>
  \<^verbatim>\<open>split\<close> raises when there are more splits than samples. Otherwise it yields, for
  each fold, the indices outside the test slice and the indices in it, both in increasing
  order (the slice is turned into a mask over the indices).
\<close>

definition KFold_split ::
  "'g numpy_random \<Rightarrow> 'g \<Rightarrow> KFold \<Rightarrow> nat \<Rightarrow> error + (nat list \<times> nat list) list" where
  "KFold_split np global_state kf n_samples =
     (if int n_samples < kf_n_splits kf then Inl ValueError
      else Inr (map (\<lambda>test_index.
                       (filter (\<lambda>i. i \<notin> set test_index) [0..<n_samples],
                        filter (\<lambda>i. i \<in> set test_index) [0..<n_samples]))
                  (iter_test_indices np global_state kf n_samples)))"

subsection \<open>The generator\<close>

record cv_generator =
  cv_n_splits :: int
  cv_backend :: backend
  cv_subset :: "string list \<Rightarrow> scorer"
  cv_unique_datasets :: "int list"
  cv_dataset_parent_to_fold_map :: "int \<Rightarrow> string list option"
  cv_configs :: "pyval list"
  cv_kf :: KFold

record fold_result =
  fold_nr :: nat
  X_train :: "int list"
  X_test :: "int list"
  X_train_fold :: "string list"
  X_test_fold :: "string list"
  score :: real
  selected_configs :: "pyval list"

text \<open>
  The first iteration of \<^verbatim>\<open>__init__\<close>, over the datasets of the scorer, with the set
  \<^verbatim>\<open>unique_datasets\<close> and the dictionary \<^verbatim>\<open>dataset_parent_to_fold_map\<close> it fills;
  a dataset that the mapping does not hold raises \<^verbatim>\<open>KeyError\<close>.
\<close>

fun init_loop ::
  "(string \<Rightarrow> int option) \<Rightarrow> string list \<Rightarrow> int set \<Rightarrow> (int \<Rightarrow> string list option)
     \<Rightarrow> error + int set \<times> (int \<Rightarrow> string list option)" where
  "init_loop unique_datasets_map [] unique_datasets dataset_parent_to_fold_map =
     Inr (unique_datasets, dataset_parent_to_fold_map)"
| "init_loop unique_datasets_map (d # ds) unique_datasets dataset_parent_to_fold_map =
     (case unique_datasets_map d of
        None \<Rightarrow> Inl KeyError
      | Some dataset_parent \<Rightarrow>
          init_loop unique_datasets_map ds (insert dataset_parent unique_datasets)
            (case dataset_parent_to_fold_map dataset_parent of
               Some l \<Rightarrow> dataset_parent_to_fold_map(dataset_parent \<mapsto> l @ [d])
             | None \<Rightarrow> dataset_parent_to_fold_map(dataset_parent \<mapsto> [d])))"

text \<open>
  \<^verbatim>\<open>__init__\<close>. The splitter is made last, with \<^verbatim>\<open>random_state=0\<close> and
  \<^verbatim>\<open>shuffle=True\<close>.
\<close>

definition cv_init ::
  "int \<Rightarrow> string list \<Rightarrow> (string \<Rightarrow> int option) \<Rightarrow> (string list \<Rightarrow> scorer)
     \<Rightarrow> pyval list option \<Rightarrow> pyval list \<Rightarrow> backend \<Rightarrow> error + cv_generator" where
  "cv_init n_splits datasets dataset_name_to_tid_dict scorer_subset configs get_configs b =
     (if \<not> 2 \<le> n_splits then Inl AssertionError
      else (case init_loop dataset_name_to_tid_dict (map np_str datasets) {} Map.empty of
              Inl e \<Rightarrow> Inl e
            | Inr st \<Rightarrow>
                (case KFold_init n_splits (Some 0) True of
                   Inl e \<Rightarrow> Inl e
                 | Inr kf \<Rightarrow>
                     Inr \<lparr>cv_n_splits = n_splits,
                          cv_backend = b,
                          cv_subset = scorer_subset,
                          cv_unique_datasets = np_array (sorted_list_of_set (fst st)),
                          cv_dataset_parent_to_fold_map = (\<lambda>d. map_option sort (snd st d)),
                          cv_configs = (case configs of None \<Rightarrow> get_configs | Some c \<Rightarrow> c),
                          cv_kf = kf\<rparr>)))"

text \<open>The statements of \<^verbatim>\<open>run\<close> that concatenate the dataset lists of the parents.\<close>

fun expand_folds :: "(int \<Rightarrow> string list option) \<Rightarrow> int list \<Rightarrow> error + string list" where
  "expand_folds dataset_parent_to_fold_map [] = Inr []"
| "expand_folds dataset_parent_to_fold_map (d # ds) =
     (case dataset_parent_to_fold_map d of
        None \<Rightarrow> Inl KeyError
      | Some l \<Rightarrow>
          (case expand_folds dataset_parent_to_fold_map ds of
             Inl e \<Rightarrow> Inl e
           | Inr ls \<Rightarrow> Inr (l @ ls)))"

definition run_fold ::
  "(real \<Rightarrow> real \<Rightarrow> real) \<Rightarrow> cv_generator \<Rightarrow> string list \<Rightarrow> string list
     \<Rightarrow> error + pyval list \<times> real" where
  "run_fold float_add cv xtrain xtest =
     (let config_scorer_train = cv_subset cv xtrain;
          config_scorer_test = cv_subset cv xtest
      in case select_zeroshot_configs float_add (cv_backend cv) config_scorer_train (cv_configs cv)
                10 None False 0 of
           Inl e \<Rightarrow> Inl e
         | Inr zeroshot_configs \<Rightarrow> Inr (zeroshot_configs, config_scorer_test zeroshot_configs))"

text \<open>The body of \<^verbatim>\<open>run\<close>, over the enumerated pairs of index lists.\<close>

fun run_folds ::
  "(real \<Rightarrow> real \<Rightarrow> real) \<Rightarrow> cv_generator \<Rightarrow> nat \<Rightarrow> (nat list \<times> nat list) list
     \<Rightarrow> error + fold_result list" where
  "run_folds float_add cv i [] = Inr []"
| "run_folds float_add cv i (split # rest) =
     (case index_array (cv_unique_datasets cv) (fst split) of Inl e \<Rightarrow> Inl e | Inr xtrain \<Rightarrow>
      case index_array (cv_unique_datasets cv) (snd split) of Inl e \<Rightarrow> Inl e | Inr xtest \<Rightarrow>
      case expand_folds (cv_dataset_parent_to_fold_map cv) xtrain of Inl e \<Rightarrow> Inl e | Inr xtrain_fold \<Rightarrow>
      case expand_folds (cv_dataset_parent_to_fold_map cv) xtest of Inl e \<Rightarrow> Inl e | Inr xtest_fold \<Rightarrow>
      case run_fold float_add cv xtrain_fold xtest_fold of Inl e \<Rightarrow> Inl e | Inr res \<Rightarrow>
      case run_folds float_add cv (Suc i) rest of Inl e \<Rightarrow> Inl e | Inr fold_results \<Rightarrow>
        Inr (\<lparr>fold_nr = i + 1, X_train = xtrain, X_test = xtest,
              X_train_fold = xtrain_fold, X_test_fold = xtest_fold,
              score = snd res, selected_configs = fst res\<rparr> # fold_results))"

text \<open>
  \<^verbatim>\<open>run\<close>, in a program whose global generator is in the state \<open>global_state\<close>.
\<close>

definition run ::
  "(real \<Rightarrow> real \<Rightarrow> real) \<Rightarrow> 'g numpy_random \<Rightarrow> 'g \<Rightarrow> cv_generator \<Rightarrow> error + fold_result list" where
  "run float_add np global_state cv =
     (case KFold_split np global_state (cv_kf cv) (length (cv_unique_datasets cv)) of
        Inl e \<Rightarrow> Inl e
      | Inr splits \<Rightarrow> run_folds float_add cv 0 splits)"

text \<open>
  Modelled from the spec, which calls the folds a standard K-fold partition. For \<open>n\<close>
  samples and \<open>k\<close> splits this is a list of \<open>k\<close> pairs of index lists in which the train
  and test indices of each pair are disjoint and together are the indices below \<open>n\<close>, the
  test indices of two different pairs are disjoint, and every index is a test index of
  some pair.
\<close>

definition kfold_partition :: "nat \<Rightarrow> nat \<Rightarrow> (nat list \<times> nat list) list \<Rightarrow> bool" where
  "kfold_partition k n splits \<longleftrightarrow>
     length splits = k
     \<and> (\<forall>s\<in>set splits. set (fst s) \<union> set (snd s) = set [0..<n]
                         \<and> set (fst s) \<inter> set (snd s) = {})
     \<and> (\<forall>i<length splits. \<forall>j<length splits. i \<noteq> j \<longrightarrow>
           set (snd (splits ! i)) \<inter> set (snd (splits ! j)) = {})
     \<and> (\<Union>s\<in>set splits. set (snd s)) = set [0..<n]"

text \<open>
  The examples: datasets with one parent each, and a generator whose state is a counter,
  made from a seed as the seed itself, that draws its state.
\<close>

definition two_parents :: "string \<Rightarrow> int option" where
  "two_parents = [''x'' \<mapsto> 1, ''y'' \<mapsto> 2]"

definition far_parents :: "string \<Rightarrow> int option" where
  "far_parents = [''x'' \<mapsto> - 1, ''y'' \<mapsto> 9223372036854775809]"

definition const_subset :: "string list \<Rightarrow> scorer" where
  "const_subset datasets = sentinel_scorer"

definition counter_random :: "nat numpy_random" where
  "counter_random = \<lparr>RandomState = (\<lambda>seed. seed), random_interval = (\<lambda>g m. (g, Suc g))\<rparr>"

section \<open>Properties of the selectors\<close>

text \<open>
  A running best score that no candidate beats is returned as it is, with the running
  best candidate.
\<close>

lemma seq_loop_keep:
  "\<forall>c\<in>set cs. bs \<le> sc (p @ [c]) \<Longrightarrow> select_sequential_loop cs p sc bn bs = (bn, bs)"
  by (induction cs) (auto simp: Let_def)

text \<open>
  When some candidate scores below the running best score, the loop returns the first
  candidate of minimal score: every candidate before it scores strictly more, every
  candidate after it at least as much.
\<close>

lemma seq_loop_first_min:
  "\<exists>c\<in>set cs. sc (p @ [c]) < bs \<Longrightarrow>
   \<exists>pre c post. cs = pre @ c # post
     \<and> select_sequential_loop cs p sc bn bs = (c, sc (p @ [c]))
     \<and> sc (p @ [c]) < bs
     \<and> (\<forall>d\<in>set pre. sc (p @ [c]) < sc (p @ [d]))
     \<and> (\<forall>d\<in>set post. sc (p @ [c]) \<le> sc (p @ [d]))"
proof (induction cs arbitrary: bn bs)
  case Nil
  then show ?case by simp
next
  case (Cons a cs)
  show ?case
  proof (cases "sc (p @ [a]) < bs")
    case lt: True
    show ?thesis
    proof (cases "\<exists>c\<in>set cs. sc (p @ [c]) < sc (p @ [a])")
      case True
      from Cons.IH [OF True, of a] obtain pre c post where
        h: "cs = pre @ c # post"
           "select_sequential_loop cs p sc a (sc (p @ [a])) = (c, sc (p @ [c]))"
           "sc (p @ [c]) < sc (p @ [a])"
           "\<forall>d\<in>set pre. sc (p @ [c]) < sc (p @ [d])"
           "\<forall>d\<in>set post. sc (p @ [c]) \<le> sc (p @ [d])"
        by blast
      have "a # cs = (a # pre) @ c # post" using h(1) by simp
      moreover have "select_sequential_loop (a # cs) p sc bn bs = (c, sc (p @ [c]))"
        using lt h(2) by (simp add: Let_def)
      moreover have "sc (p @ [c]) < bs" using h(3) lt by simp
      moreover have "\<forall>d\<in>set (a # pre). sc (p @ [c]) < sc (p @ [d])"
        using h(3) h(4) by simp
      ultimately show ?thesis using h(5) by blast
    next
      case False
      then have "\<forall>c\<in>set cs. sc (p @ [a]) \<le> sc (p @ [c])" by (simp add: not_less)
      then have "select_sequential_loop cs p sc a (sc (p @ [a])) = (a, sc (p @ [a]))"
        by (rule seq_loop_keep)
      then have "select_sequential_loop (a # cs) p sc bn bs = (a, sc (p @ [a]))"
        using lt by (simp add: Let_def)
      moreover have "a # cs = [] @ a # cs" by simp
      moreover have "\<forall>d\<in>set cs. sc (p @ [a]) \<le> sc (p @ [d])"
        using False by (simp add: not_less)
      moreover have "\<forall>d\<in>set ([] :: pyval list). sc (p @ [a]) < sc (p @ [d])" by simp
      ultimately show ?thesis using lt by blast
    qed
  next
    case ge: False
    with Cons.prems have ex: "\<exists>c\<in>set cs. sc (p @ [c]) < bs" by auto
    from Cons.IH [OF ex, of bn] obtain pre c post where
      h: "cs = pre @ c # post"
         "select_sequential_loop cs p sc bn bs = (c, sc (p @ [c]))"
         "sc (p @ [c]) < bs"
         "\<forall>d\<in>set pre. sc (p @ [c]) < sc (p @ [d])"
         "\<forall>d\<in>set post. sc (p @ [c]) \<le> sc (p @ [d])"
      by blast
    have "a # cs = (a # pre) @ c # post" using h(1) by simp
    moreover have "select_sequential_loop (a # cs) p sc bn bs = (c, sc (p @ [c]))"
      using ge h(2) by (simp add: Let_def)
    moreover have "\<forall>d\<in>set (a # pre). sc (p @ [c]) < sc (p @ [d])"
      using h(3) h(4) ge by simp
    ultimately show ?thesis using h(3) h(5) by blast
  qed
qed

lemma index_py_first:
  "\<forall>d\<in>set pre. d \<noteq> v \<Longrightarrow> index_py (pre @ v # post) v = Inr (length pre)"
  by (induction pre) auto

lemma min_list_split:
  fixes f :: "'a \<Rightarrow> real"
  assumes "\<forall>d\<in>set pre. f c < f d" and "\<forall>d\<in>set post. f c \<le> f d"
  shows "min_list (map f (pre @ c # post)) = f c"
proof -
  have "min_list (map f (pre @ c # post)) = Min (set (map f (pre @ c # post)))"
    by (rule min_list_Min) simp
  also have "\<dots> = f c"
    using assms by (intro Min_eqI) (auto intro: less_imp_le)
  finally show ?thesis .
qed

text \<open>The parallel selector returns the first candidate of minimal score.\<close>

lemma select_ray_split:
  assumes "\<forall>d\<in>set pre. sc (p @ [c]) < sc (p @ [d])"
    and "\<forall>d\<in>set post. sc (p @ [c]) \<le> sc (p @ [d])"
  shows "select_ray (pre @ c # post) p sc = Inr (c, sc (p @ [c]))"
proof -
  let ?f = "\<lambda>c. sc (p @ [c])"
  have m: "min_list (map ?f (pre @ c # post)) = ?f c"
    using assms by (rule min_list_split)
  have "\<forall>d\<in>set (map ?f pre). d \<noteq> ?f c" using assms(1) by auto
  then have "index_py (map ?f pre @ ?f c # map ?f post) (?f c) = Inr (length (map ?f pre))"
    by (rule index_py_first)
  then have i: "index_py (map ?f (pre @ c # post)) (?f c) = Inr (length pre)" by simp
  show ?thesis
    unfolding select_ray_def score_config_ray_def Let_def
    using m i by (simp add: nth_append)
qed

lemma select_ray_first_min:
  assumes "cs \<noteq> []"
  shows "\<exists>pre c post. cs = pre @ c # post
     \<and> select_ray cs p sc = Inr (c, sc (p @ [c]))
     \<and> (\<forall>d\<in>set pre. sc (p @ [c]) < sc (p @ [d]))
     \<and> (\<forall>d\<in>set post. sc (p @ [c]) \<le> sc (p @ [d]))"
proof -
  from assms obtain a where "a \<in> set cs" by (cases cs) auto
  then have "\<exists>c\<in>set cs. sc (p @ [c]) < sc (p @ [a]) + 1" by (intro bexI [of _ a]) auto
  from seq_loop_first_min [OF this, of PyNone] obtain pre c post where
    h: "cs = pre @ c # post"
       "\<forall>d\<in>set pre. sc (p @ [c]) < sc (p @ [d])"
       "\<forall>d\<in>set post. sc (p @ [c]) \<le> sc (p @ [d])"
    by blast
  from select_ray_split [OF h(2) h(3)] h show ?thesis by blast
qed

text \<open>
  Below the initial value of \<^verbatim>\<open>best_score\<close> the two selectors return the same pair.
\<close>

lemma selectors_agree:
  assumes "\<exists>c\<in>set cs. sc (p @ [c]) < 999999999"
  shows "selector Sequential cs p sc = selector Ray cs p sc"
proof -
  from seq_loop_first_min [OF assms, of PyNone] obtain pre c post where
    h: "cs = pre @ c # post"
       "select_sequential_loop cs p sc PyNone 999999999 = (c, sc (p @ [c]))"
       "\<forall>d\<in>set pre. sc (p @ [c]) < sc (p @ [d])"
       "\<forall>d\<in>set post. sc (p @ [c]) \<le> sc (p @ [d])"
    by blast
  from select_ray_split [OF h(3) h(4)] h(1) h(2) show ?thesis
    by (simp add: selector_def select_sequential_def)
qed

lemmas eval_select = select_zeroshot_configs_def select_loop.simps selector_def
  select_sequential_def select_ray_def score_config_ray_def Let_def

text \<open>
  C9. In sequential mode, when at least one candidate scores strictly below the initial
  value 999999999 of \<^verbatim>\<open>best_score\<close>, the candidate returned by
  \<^verbatim>\<open>_select_sequential\<close> is an element of the candidate list, the score returned
  is its score and is below the initial value; the initial \<^verbatim>\<open>None\<close> is not returned
  (the candidates being identifiers).
\<close>

theorem select_sequential_returns_candidate:
  assumes "\<exists>c\<in>set configs. config_scorer (prior_configs @ [c]) < 999999999"
  shows "fst (select_sequential configs prior_configs config_scorer) \<in> set configs
    \<and> snd (select_sequential configs prior_configs config_scorer)
        = config_scorer (prior_configs @ [fst (select_sequential configs prior_configs config_scorer)])
    \<and> snd (select_sequential configs prior_configs config_scorer) < 999999999
    \<and> (PyNone \<notin> set configs \<longrightarrow>
         fst (select_sequential configs prior_configs config_scorer) \<noteq> PyNone)"
proof -
  from seq_loop_first_min [OF assms, of PyNone] obtain pre c post where
    h: "configs = pre @ c # post"
       "select_sequential configs prior_configs config_scorer
          = (c, config_scorer (prior_configs @ [c]))"
       "config_scorer (prior_configs @ [c]) < 999999999"
    unfolding select_sequential_def by blast
  have "c \<in> set configs" using h(1) by simp
  then show ?thesis using h(2) h(3) by auto
qed

theorem select_sequential_returns_candidate_witness:
  "(\<exists>c\<in>set [PyStr ''A'', PyStr ''B'']. small_scorer ([] @ [c]) < 999999999)
   \<and> PyNone \<notin> set [PyStr ''A'', PyStr ''B'']
   \<and> fst (select_sequential [PyStr ''A'', PyStr ''B''] [] small_scorer) \<in> set [PyStr ''A'', PyStr ''B'']
   \<and> fst (select_sequential [PyStr ''A'', PyStr ''B''] [] small_scorer) \<noteq> PyNone"
proof -
  have h: "\<exists>c\<in>set [PyStr ''A'', PyStr ''B'']. small_scorer ([] @ [c]) < 999999999"
    by (simp add: small_scorer_def)
  have n: "PyNone \<notin> set [PyStr ''A'', PyStr ''B'']" by simp
  from select_sequential_returns_candidate [OF h] h n show ?thesis by blast
qed

text \<open>
  C1. The two selectors do not always return the same pair. With the one candidate
  \<open>A\<close> and a scorer that returns 1000000000, which is not below the initial value
  999999999 of \<^verbatim>\<open>best_score\<close>, \<^verbatim>\<open>_select_sequential\<close> returns
  \<^verbatim>\<open>(None, 999999999)\<close> and \<^verbatim>\<open>_select_ray\<close> returns \<open>A\<close> with its score;
  the portfolios of size 1 selected in the two modes differ.
\<close>

theorem sequential_ray_diverge:
  "select_sequential [PyStr ''A''] [] sentinel_scorer = (PyNone, 999999999)
   \<and> select_ray [PyStr ''A''] [] sentinel_scorer = Inr (PyStr ''A'', 1000000000)
   \<and> select_zeroshot_configs float_add Sequential sentinel_scorer [PyStr ''A''] 1 None False 0 = Inr [PyNone]
   \<and> select_zeroshot_configs float_add Ray sentinel_scorer [PyStr ''A''] 1 None False 0 = Inr [PyStr ''A'']"
  by (simp add: eval_select sentinel_scorer_def)

text \<open>
  C3. In sequential mode the value appended need not be a remaining candidate. With the
  pool \<open>A, B\<close> and a scorer under which \<open>B\<close> scores less than \<open>A\<close>, both not below
  999999999, the first iteration appends \<^verbatim>\<open>None\<close>, which is not in the pool; the
  parallel mode appends \<open>B\<close>.
\<close>

theorem sequential_appends_none:
  "select_loop Sequential late_best_scorer [PyStr ''A'', PyStr ''B''] 1 [] []
     = Inr ([PyNone], [([PyStr ''A'', PyStr ''B''], [])])
   \<and> PyNone \<notin> set [PyStr ''A'', PyStr ''B'']
   \<and> late_best_scorer ([] @ [PyStr ''B'']) < late_best_scorer ([] @ [PyStr ''A''])
   \<and> select_loop Ray late_best_scorer [PyStr ''A'', PyStr ''B''] 1 [] []
     = Inr ([PyStr ''B''], [([PyStr ''A'', PyStr ''B''], [])])"
  by (simp add: eval_select late_best_scorer_def)

text \<open>
  C4. In sequential mode the portfolio can reach the requested size although the pool
  is smaller. With the pool \<open>A\<close>, the target 2, no prior portfolio, no pruning and a
  scorer that returns 1000000000, the result has two elements, both \<^verbatim>\<open>None\<close>; the
  parallel mode returns the one-element portfolio \<open>A\<close>.
\<close>

theorem sequential_overshoots_pool:
  "select_zeroshot_configs float_add Sequential sentinel_scorer [PyStr ''A''] 2 None False 0
     = Inr [PyNone, PyNone]
   \<and> length [PyNone, PyNone] \<noteq> length [PyStr ''A'']
   \<and> select_zeroshot_configs float_add Ray sentinel_scorer [PyStr ''A''] 2 None False 0 = Inr [PyStr ''A'']"
  by (simp add: eval_select sentinel_scorer_def)

text \<open>
  C8. In sequential mode the portfolio can hold a value twice. With the pool \<open>A, B\<close>,
  the prior portfolio \<open>C\<close>, the target 3 and a scorer that returns 1000000000, the
  result is \<open>C\<close> followed by \<^verbatim>\<open>None\<close> twice; the parallel mode returns \<open>C, A, B\<close>.
\<close>

theorem sequential_duplicates:
  "select_zeroshot_configs float_add Sequential sentinel_scorer [PyStr ''A'', PyStr ''B''] 3
       (Some [PyStr ''C'']) False 0
     = Inr [PyStr ''C'', PyNone, PyNone]
   \<and> distinct [PyStr ''A'', PyStr ''B''] \<and> distinct [PyStr ''C'']
   \<and> \<not> distinct [PyStr ''C'', PyNone, PyNone]
   \<and> select_zeroshot_configs float_add Ray sentinel_scorer [PyStr ''A'', PyStr ''B''] 3
       (Some [PyStr ''C'']) False 0
     = Inr [PyStr ''C'', PyStr ''A'', PyStr ''B'']"
  by (simp add: eval_select sentinel_scorer_def)

section \<open>Properties of pruning\<close>

text \<open>A round returns the candidate it started with or an element of the list it scans.\<close>

lemma prune_round_in:
  "snd (prune_round float_add sc thr zs cs b r) \<in> insert r (set cs)"
  by (induction cs arbitrary: b r) (auto simp: Let_def)

text \<open>
  Once a removal candidate is held, the rest of the round keeps the minimum of the running
  score and the scores of the removals that follow.
\<close>

lemma prune_round_after:
  "r \<noteq> PyNone \<Longrightarrow> PyNone \<notin> set cs \<Longrightarrow>
   snd (prune_round float_add sc thr zs cs b r) \<noteq> PyNone
   \<and> fst (prune_round float_add sc thr zs cs b r) \<le> b
   \<and> (\<forall>c\<in>set cs. fst (prune_round float_add sc thr zs cs b r) \<le> sc (filter (\<lambda>x. x \<noteq> c) zs))
   \<and> (prune_round float_add sc thr zs cs b r = (b, r)
      \<or> (snd (prune_round float_add sc thr zs cs b r) \<in> set cs
         \<and> fst (prune_round float_add sc thr zs cs b r)
            = sc (filter (\<lambda>x. x \<noteq> snd (prune_round float_add sc thr zs cs b r)) zs)))"
proof (induction cs arbitrary: b r)
  case Nil
  then show ?case by simp
next
  case (Cons a cs)
  let ?g = "\<lambda>c. sc (filter (\<lambda>x. x \<noteq> c) zs)"
  have a: "a \<noteq> PyNone" and n: "PyNone \<notin> set cs" using Cons.prems by auto
  show ?case
  proof (cases "?g a \<le> b")
    case True
    then have e: "prune_round float_add sc thr zs (a # cs) b r = prune_round float_add sc thr zs cs (?g a) a"
      using Cons.prems by (simp add: Let_def)
    from Cons.IH [OF a n, of "?g a"] True show ?thesis
      unfolding e by auto
  next
    case False
    then have e: "prune_round float_add sc thr zs (a # cs) b r = prune_round float_add sc thr zs cs b r"
      using Cons.prems by (simp add: Let_def)
    from Cons.IH [OF Cons.prems(1) n, of b] False show ?thesis
      unfolding e by auto
  qed
qed

text \<open>A round in which no removal meets the threshold changes nothing.\<close>

lemma prune_round_none:
  "PyNone \<notin> set cs \<Longrightarrow> \<forall>c\<in>set cs. \<not> sc (filter (\<lambda>x. x \<noteq> c) zs) \<le> float_add b thr \<Longrightarrow>
   prune_round float_add sc thr zs cs b PyNone = (b, PyNone)"
  by (induction cs) (auto simp: Let_def)

text \<open>
  A round in which some removal meets the threshold ends with an element of the portfolio,
  its removal score as the running score, minimal among the removals that meet the threshold.
\<close>

lemma prune_round_first:
  "PyNone \<notin> set cs \<Longrightarrow> \<exists>c\<in>set cs. sc (filter (\<lambda>x. x \<noteq> c) zs) \<le> float_add b thr \<Longrightarrow>
   snd (prune_round float_add sc thr zs cs b PyNone) \<in> set cs
   \<and> fst (prune_round float_add sc thr zs cs b PyNone)
        = sc (filter (\<lambda>x. x \<noteq> snd (prune_round float_add sc thr zs cs b PyNone)) zs)
   \<and> fst (prune_round float_add sc thr zs cs b PyNone) \<le> float_add b thr
   \<and> (\<forall>c\<in>set cs. sc (filter (\<lambda>x. x \<noteq> c) zs) \<le> float_add b thr \<longrightarrow>
         fst (prune_round float_add sc thr zs cs b PyNone) \<le> sc (filter (\<lambda>x. x \<noteq> c) zs))"
proof (induction cs)
  case Nil
  then show ?case by simp
next
  case (Cons a cs)
  let ?g = "\<lambda>c. sc (filter (\<lambda>x. x \<noteq> c) zs)"
  have a: "a \<noteq> PyNone" and n: "PyNone \<notin> set cs" using Cons.prems by auto
  show ?case
  proof (cases "?g a \<le> float_add b thr")
    case True
    then have e: "prune_round float_add sc thr zs (a # cs) b PyNone = prune_round float_add sc thr zs cs (?g a) a"
      by (simp add: Let_def)
    from prune_round_after [OF a n, of float_add sc thr zs "?g a"] True show ?thesis
      unfolding e by auto
  next
    case False
    then have e: "prune_round float_add sc thr zs (a # cs) b PyNone = prune_round float_add sc thr zs cs b PyNone"
      by (simp add: Let_def)
    from False Cons.prems have "\<exists>c\<in>set cs. ?g c \<le> float_add b thr" by auto
    from Cons.IH [OF n this] False show ?thesis
      unfolding e by auto
  qed
qed

lemma filter_absent:
  "x \<notin> set zs \<Longrightarrow> filter (\<lambda>c. c \<noteq> x) zs = zs"
  by (induction zs) auto

lemma remove1_filter:
  "x \<notin> set (remove1 x zs) \<Longrightarrow> remove1 x zs = filter (\<lambda>c. c \<noteq> x) zs"
  by (induction zs) (auto simp: filter_absent split: if_splits)

lemma filter_remove1_same:
  "x \<in> set (remove1 x zs) \<Longrightarrow> filter (\<lambda>c. c \<noteq> x) (remove1 x zs) = filter (\<lambda>c. c \<noteq> x) zs"
  by (induction zs) (auto split: if_splits)

text \<open>The two cases of one turn of the \<^verbatim>\<open>while\<close> loop.\<close>

lemma prune_loop_stop:
  "PyNone \<notin> set zs \<Longrightarrow> \<forall>c\<in>set zs. \<not> sc (filter (\<lambda>x. x \<noteq> c) zs) \<le> float_add b thr \<Longrightarrow>
   prune_loop float_add sc thr zs b = Inr zs"
  by (subst prune_loop.simps)
    (simp add: prune_round_none [where float_add = float_add and b = b and thr = thr])

lemma prune_loop_step:
  assumes "PyNone \<notin> set zs" and "\<exists>c\<in>set zs. sc (filter (\<lambda>x. x \<noteq> c) zs) \<le> float_add b thr"
  shows "prune_loop float_add sc thr zs b =
     prune_loop float_add sc thr (remove1 (snd (prune_round float_add sc thr zs zs b PyNone)) zs)
       (sc (filter (\<lambda>x. x \<noteq> snd (prune_round float_add sc thr zs zs b PyNone)) zs))"
proof -
  from prune_round_first [where float_add = float_add and b = b and thr = thr, OF assms] have
    h: "snd (prune_round float_add sc thr zs zs b PyNone) \<in> set zs"
       "fst (prune_round float_add sc thr zs zs b PyNone)
          = sc (filter (\<lambda>x. x \<noteq> snd (prune_round float_add sc thr zs zs b PyNone)) zs)"
    by auto
  from h(1) assms(1) have "snd (prune_round float_add sc thr zs zs b PyNone) \<noteq> PyNone" by auto
  then show ?thesis
    using h by (subst prune_loop.simps) (simp add: Let_def remove_py_def)
qed

lemmas eval_prune = prune_zeroshot_configs_def prune_loop.simps remove_py_def Let_def

text \<open>
  C2. For a portfolio, that is a duplicate-free list of identifiers, a threshold and a
  scorer, with the sum \<open>base_score + slack\<close> as line 114 computes it on floats
  (\<open>float_add\<close>): when some configuration \<open>x\<close> has
  \<open>score (portfolio - x) \<le> base_score + slack\<close>, where \<open>base_score\<close> is the score of the
  portfolio, the round removes a configuration that meets this bound and whose removal
  score is minimal among the configurations that meet it, and pruning goes on as the
  pruning of the reduced portfolio, so that the next round starts from the score of the
  portfolio it is given; when no configuration meets the bound, the round removes nothing
  and pruning returns the portfolio unchanged.
\<close>

theorem prune_round_removes_min:
  assumes "distinct zeroshot_configs" and "PyNone \<notin> set zeroshot_configs"
  shows "if \<exists>x\<in>set zeroshot_configs.
              config_scorer (removeAll x zeroshot_configs)
                \<le> float_add (config_scorer zeroshot_configs) removal_threshold
         then \<exists>x\<in>set zeroshot_configs.
                snd (prune_round float_add config_scorer removal_threshold zeroshot_configs zeroshot_configs
                       (config_scorer zeroshot_configs) PyNone) = x
              \<and> config_scorer (removeAll x zeroshot_configs)
                  \<le> float_add (config_scorer zeroshot_configs) removal_threshold
              \<and> (\<forall>y\<in>set zeroshot_configs.
                    config_scorer (removeAll y zeroshot_configs)
                      \<le> float_add (config_scorer zeroshot_configs) removal_threshold
                    \<longrightarrow> config_scorer (removeAll x zeroshot_configs)
                          \<le> config_scorer (removeAll y zeroshot_configs))
              \<and> prune_zeroshot_configs float_add config_scorer zeroshot_configs removal_threshold
                  = prune_zeroshot_configs float_add config_scorer (removeAll x zeroshot_configs)
                      removal_threshold
         else snd (prune_round float_add config_scorer removal_threshold zeroshot_configs zeroshot_configs
                     (config_scorer zeroshot_configs) PyNone) = PyNone
              \<and> prune_zeroshot_configs float_add config_scorer zeroshot_configs removal_threshold
                  = Inr zeroshot_configs"
proof -
  let ?zs = zeroshot_configs and ?sc = config_scorer and ?thr = removal_threshold
  have f: "\<And>x. filter (\<lambda>c. c \<noteq> x) ?zs = removeAll x ?zs"
    by (simp add: removeAll_filter_not_eq) metis
  show ?thesis
  proof (cases "\<exists>x\<in>set ?zs. ?sc (removeAll x ?zs) \<le> float_add (?sc ?zs) ?thr")
    case True
    then have ex: "\<exists>c\<in>set ?zs. ?sc (filter (\<lambda>x. x \<noteq> c) ?zs) \<le> float_add (?sc ?zs) ?thr"
      by (simp add: f)
    let ?x = "snd (prune_round float_add ?sc ?thr ?zs ?zs (?sc ?zs) PyNone)"
    note pr = prune_round_first [where float_add = float_add and b = "?sc ?zs" and thr = ?thr,
        OF assms(2) ex, unfolded f]
    have h: "?x \<in> set ?zs"
         "fst (prune_round float_add ?sc ?thr ?zs ?zs (?sc ?zs) PyNone) = ?sc (removeAll ?x ?zs)"
         "fst (prune_round float_add ?sc ?thr ?zs ?zs (?sc ?zs) PyNone) \<le> float_add (?sc ?zs) ?thr"
         "\<forall>c\<in>set ?zs. ?sc (removeAll c ?zs) \<le> float_add (?sc ?zs) ?thr \<longrightarrow>
            fst (prune_round float_add ?sc ?thr ?zs ?zs (?sc ?zs) PyNone) \<le> ?sc (removeAll c ?zs)"
      using pr by blast+
    have r: "remove1 ?x ?zs = removeAll ?x ?zs"
      using assms(1) by (rule distinct_remove1_removeAll)
    note h
    moreover have "prune_zeroshot_configs float_add ?sc ?zs ?thr
            = prune_zeroshot_configs float_add ?sc (removeAll ?x ?zs) ?thr"
      unfolding prune_zeroshot_configs_def
      using prune_loop_step [where float_add = float_add and b = "?sc ?zs" and thr = ?thr,
          OF assms(2) ex] by (simp add: f r)
    ultimately have "\<exists>x\<in>set ?zs.
        snd (prune_round float_add ?sc ?thr ?zs ?zs (?sc ?zs) PyNone) = x
        \<and> ?sc (removeAll x ?zs) \<le> float_add (?sc ?zs) ?thr
        \<and> (\<forall>y\<in>set ?zs. ?sc (removeAll y ?zs) \<le> float_add (?sc ?zs) ?thr
              \<longrightarrow> ?sc (removeAll x ?zs) \<le> ?sc (removeAll y ?zs))
        \<and> prune_zeroshot_configs float_add ?sc ?zs ?thr
            = prune_zeroshot_configs float_add ?sc (removeAll x ?zs) ?thr"
      using h by (intro bexI [of _ ?x]) auto
    then show ?thesis using True by (simp only: if_True)
  next
    case False
    then have no: "\<forall>c\<in>set ?zs. \<not> ?sc (filter (\<lambda>x. x \<noteq> c) ?zs) \<le> float_add (?sc ?zs) ?thr"
      by (simp add: f)
    have "prune_round float_add ?sc ?thr ?zs ?zs (?sc ?zs) PyNone = (?sc ?zs, PyNone)"
      using assms(2) no
      by (rule prune_round_none [where float_add = float_add and b = "?sc ?zs" and thr = ?thr])
    moreover have "prune_zeroshot_configs float_add ?sc ?zs ?thr = Inr ?zs"
      unfolding prune_zeroshot_configs_def using assms(2) no
      by (rule prune_loop_stop [where float_add = float_add and b = "?sc ?zs" and thr = ?thr])
    ultimately show ?thesis using False by (simp only: if_False snd_conv simp_thms)
  qed
qed

theorem prune_round_removes_min_witness:
  "distinct [PyStr ''A'', PyStr ''B'', PyStr ''C'']
   \<and> PyNone \<notin> set [PyStr ''A'', PyStr ''B'', PyStr ''C'']
   \<and> keep_ac_scorer (removeAll (PyStr ''B'') [PyStr ''A'', PyStr ''B'', PyStr ''C''])
        \<le> exact_add (keep_ac_scorer [PyStr ''A'', PyStr ''B'', PyStr ''C'']) 0
   \<and> snd (prune_round exact_add keep_ac_scorer 0 [PyStr ''A'', PyStr ''B'', PyStr ''C'']
             [PyStr ''A'', PyStr ''B'', PyStr ''C'']
             (keep_ac_scorer [PyStr ''A'', PyStr ''B'', PyStr ''C'']) PyNone) = PyStr ''B''
   \<and> prune_zeroshot_configs exact_add keep_ac_scorer [PyStr ''A'', PyStr ''B'', PyStr ''C''] 0
       = prune_zeroshot_configs exact_add keep_ac_scorer [PyStr ''A'', PyStr ''C''] 0
   \<and> prune_zeroshot_configs exact_add keep_ac_scorer [PyStr ''A'', PyStr ''C''] 0
       = Inr [PyStr ''A'', PyStr ''C'']"
proof -
  let ?zs = "[PyStr ''A'', PyStr ''B'', PyStr ''C'']"
  have d: "distinct ?zs" and n: "PyNone \<notin> set ?zs" by simp_all
  have le: "keep_ac_scorer (removeAll (PyStr ''B'') ?zs) \<le> exact_add (keep_ac_scorer ?zs) 0"
    by (simp add: keep_ac_scorer_def exact_add_def)
  then have e: "\<exists>x\<in>set ?zs. keep_ac_scorer (removeAll x ?zs) \<le> exact_add (keep_ac_scorer ?zs) 0"
    by (intro bexI [of _ "PyStr ''B''"]) simp_all
  have s: "snd (prune_round exact_add keep_ac_scorer 0 ?zs ?zs (keep_ac_scorer ?zs) PyNone) = PyStr ''B''"
    by (simp add: keep_ac_scorer_def exact_add_def Let_def)
  from prune_round_removes_min [OF d n, where config_scorer = keep_ac_scorer
      and float_add = exact_add and removal_threshold = 0] e
  have "\<exists>x\<in>set ?zs.
          snd (prune_round exact_add keep_ac_scorer 0 ?zs ?zs (keep_ac_scorer ?zs) PyNone) = x
        \<and> prune_zeroshot_configs exact_add keep_ac_scorer ?zs 0
            = prune_zeroshot_configs exact_add keep_ac_scorer (removeAll x ?zs) 0"
    by (simp only: if_True) blast
  then have p: "prune_zeroshot_configs exact_add keep_ac_scorer ?zs 0
      = prune_zeroshot_configs exact_add keep_ac_scorer (removeAll (PyStr ''B'') ?zs) 0"
    unfolding s by blast
  let ?ys = "[PyStr ''A'', PyStr ''C'']"
  have d': "distinct ?ys" and n': "PyNone \<notin> set ?ys" by simp_all
  have ne: "\<not> (\<exists>x\<in>set ?ys. keep_ac_scorer (removeAll x ?ys) \<le> exact_add (keep_ac_scorer ?ys) 0)"
    by (simp add: keep_ac_scorer_def exact_add_def)
  from prune_round_removes_min [OF d' n', where config_scorer = keep_ac_scorer
      and float_add = exact_add and removal_threshold = 0] ne
  have q: "prune_zeroshot_configs exact_add keep_ac_scorer ?ys 0 = Inr ?ys"
    by (simp only: if_False)
  from d n le s p q show ?thesis by simp
qed

text \<open>
  From a duplicate-free portfolio and its score, the loop ends in a portfolio that one
  more pruning leaves unchanged.
\<close>

lemma prune_loop_fixpoint:
  "PyNone \<notin> set zs \<Longrightarrow> distinct zs \<Longrightarrow>
   \<exists>R. prune_loop float_add sc thr zs (sc zs) = Inr R
     \<and> prune_loop float_add sc thr R (sc R) = Inr R"
proof (induction "length zs" arbitrary: zs rule: less_induct)
  case less
  let ?g = "\<lambda>c. sc (filter (\<lambda>x. x \<noteq> c) zs)"
  show ?case
  proof (cases "\<exists>c\<in>set zs. ?g c \<le> float_add (sc zs) thr")
    case False
    then have no: "\<forall>c\<in>set zs. \<not> ?g c \<le> float_add (sc zs) thr" by simp
    have "prune_loop float_add sc thr zs (sc zs) = Inr zs"
      using less.prems(1) no
      by (rule prune_loop_stop [where float_add = float_add and b = "sc zs" and thr = thr])
    then show ?thesis by auto
  next
    case True
    let ?x = "snd (prune_round float_add sc thr zs zs (sc zs) PyNone)"
    let ?zs' = "remove1 ?x zs"
    from prune_round_first [where float_add = float_add and b = "sc zs" and thr = thr,
        OF less.prems(1) True] have x: "?x \<in> set zs" by blast
    have step: "prune_loop float_add sc thr zs (sc zs) = prune_loop float_add sc thr ?zs' (?g ?x)"
      using less.prems(1) True
      by (rule prune_loop_step [where float_add = float_add and b = "sc zs" and thr = thr])
    have len: "length ?zs' < length zs"
      using x length_pos_if_in_set [OF x] by (simp add: length_remove1)
    have n: "PyNone \<notin> set ?zs'"
      using less.prems(1) by (auto dest: notin_set_remove1)
    have d: "distinct ?zs'" using less.prems(2) by simp
    have "?x \<notin> set ?zs'" using less.prems(2) by simp
    then have "?zs' = filter (\<lambda>c. c \<noteq> ?x) zs" by (rule remove1_filter)
    then have e: "?g ?x = sc ?zs'" by simp
    from less.hyps [OF len n d] step show ?thesis unfolding e by simp
  qed
qed

text \<open>
  C7. For a portfolio, that is a duplicate-free list of identifiers, every threshold and
  every scorer, pruning returns a portfolio that pruning with the same threshold and scorer
  returns unchanged.
\<close>

theorem prune_idempotent:
  assumes "PyNone \<notin> set zeroshot_configs" and "distinct zeroshot_configs"
  shows "\<exists>pruned.
           prune_zeroshot_configs float_add config_scorer zeroshot_configs removal_threshold
             = Inr pruned
         \<and> prune_zeroshot_configs float_add config_scorer pruned removal_threshold = Inr pruned"
  unfolding prune_zeroshot_configs_def
  using assms by (rule prune_loop_fixpoint)

theorem prune_idempotent_witness:
  "PyNone \<notin> set [PyStr ''A'', PyStr ''B'', PyStr ''C'']
   \<and> distinct [PyStr ''A'', PyStr ''B'', PyStr ''C'']
   \<and> prune_zeroshot_configs exact_add keep_ac_scorer [PyStr ''A'', PyStr ''B'', PyStr ''C''] 0
       = Inr [PyStr ''A'', PyStr ''C'']
   \<and> prune_zeroshot_configs exact_add keep_ac_scorer [PyStr ''A'', PyStr ''C''] 0
       = Inr [PyStr ''A'', PyStr ''C'']"
proof -
  let ?zs = "[PyStr ''A'', PyStr ''B'', PyStr ''C'']"
  have n: "PyNone \<notin> set ?zs" and d: "distinct ?zs" by simp_all
  have p: "prune_zeroshot_configs exact_add keep_ac_scorer ?zs 0 = Inr [PyStr ''A'', PyStr ''C'']"
    by (simp add: eval_prune keep_ac_scorer_def exact_add_def)
  from prune_idempotent [OF n d, where float_add = exact_add
      and config_scorer = keep_ac_scorer and removal_threshold = 0] obtain pruned where
    "prune_zeroshot_configs exact_add keep_ac_scorer ?zs 0 = Inr pruned"
    "prune_zeroshot_configs exact_add keep_ac_scorer pruned 0 = Inr pruned"
    by blast
  with p have "prune_zeroshot_configs exact_add keep_ac_scorer [PyStr ''A'', PyStr ''C''] 0
      = Inr [PyStr ''A'', PyStr ''C'']" by simp
  with n d p show ?thesis by blast
qed

section \<open>Selection with nothing to select\<close>

lemma prune_empty: "prune_zeroshot_configs float_add sc [] thr = Inr []"
  by (simp add: eval_prune)

text \<open>
  C6 (amended). When the candidate pool is empty or the target is at most 0, the forward
  phase calls the selector not once (no candidate is scored) and leaves the prior
  portfolio as it is: the result is the prior portfolio, pruned when the removal stage is
  on, and the empty portfolio when the prior portfolio is absent or empty.
\<close>

theorem select_nothing_to_select:
  assumes "all_configs = [] \<or> num_zeroshot \<le> 0"
  shows "select_loop b config_scorer all_configs num_zeroshot zeroshot_configs []
           = Inr (zeroshot_configs, [])
    \<and> select_zeroshot_configs float_add b config_scorer all_configs num_zeroshot None
           removal_stage removal_threshold = Inr []
    \<and> select_zeroshot_configs float_add b config_scorer all_configs num_zeroshot (Some [])
           removal_stage removal_threshold = Inr []
    \<and> select_zeroshot_configs float_add b config_scorer all_configs num_zeroshot (Some zeroshot_configs)
           False removal_threshold = Inr zeroshot_configs
    \<and> select_zeroshot_configs float_add b config_scorer all_configs num_zeroshot (Some zeroshot_configs)
           True removal_threshold
         = prune_zeroshot_configs float_add config_scorer zeroshot_configs removal_threshold"
proof -
  have l: "select_loop b config_scorer all_configs num_zeroshot zs [] = Inr (zs, [])" for zs
    using assms by (subst select_loop.simps) auto
  show ?thesis
    by (simp add: select_zeroshot_configs_def l prune_empty)
qed

theorem select_nothing_to_select_witness:
  "(([] :: pyval list) = [] \<or> (3 :: int) \<le> 0)
   \<and> select_loop Ray keep_ac_scorer [] 3 [PyStr ''A''] [] = Inr ([PyStr ''A''], [])
   \<and> select_zeroshot_configs exact_add Ray keep_ac_scorer [] 3 None True 0 = Inr []
   \<and> select_zeroshot_configs exact_add Ray keep_ac_scorer [] 3 (Some [PyStr ''A'']) False 0
       = Inr [PyStr ''A'']"
proof -
  have h: "([] :: pyval list) = [] \<or> (3 :: int) \<le> 0" by simp
  from select_nothing_to_select [OF h, where b = Ray and config_scorer = keep_ac_scorer
      and zeroshot_configs = "[PyStr ''A'']" and float_add = exact_add
      and removal_stage = True and removal_threshold = 0] h
  show ?thesis by simp
qed

text \<open>
  C6, as stated for every prior portfolio, fails for a prior portfolio that is not empty:
  with an empty pool, or with target 0, the prior portfolio \<open>A\<close> is returned, with the
  removal stage off and, under a scorer for which removing \<open>A\<close> is worse, with it on.
\<close>

theorem select_returns_prior:
  "select_zeroshot_configs exact_add Ray keep_ac_scorer [] 3 (Some [PyStr ''A'']) False 0
     = Inr [PyStr ''A'']
   \<and> select_zeroshot_configs exact_add Ray keep_ac_scorer [] 3 (Some [PyStr ''A'']) True 0
     = Inr [PyStr ''A'']
   \<and> select_zeroshot_configs exact_add Sequential keep_ac_scorer [PyStr ''B''] 0 (Some [PyStr ''A''])
       True 0
     = Inr [PyStr ''A'']"
  by (simp add: eval_select eval_prune keep_ac_scorer_def exact_add_def)

section \<open>The calls return\<close>

text \<open>
  On a list of candidates that is not empty both selectors return a pair; selection
  and pruning return a portfolio for every input.
\<close>

lemma selector_total:
  "valid \<noteq> [] \<Longrightarrow> \<exists>r. selector b valid zs sc = Inr r"
proof (cases b)
  case Ray
  assume "valid \<noteq> []"
  from select_ray_first_min [OF this, of zs sc] Ray show ?thesis
    by (auto simp: selector_def)
next
  case Sequential
  then show ?thesis by (simp add: selector_def)
qed

lemma select_loop_total:
  "\<exists>st. select_loop b sc al n zs calls = Inr st"
proof (induction b sc al n zs calls rule: select_loop.induct)
  case (1 b sc al n zs calls)
  let ?valid = "filter (\<lambda>c. c \<notin> set zs) al"
  show ?case
  proof (cases "int (length zs) < n \<and> ?valid \<noteq> []")
    case False
    then show ?thesis by (subst select_loop.simps) (auto simp: Let_def)
  next
    case True
    then obtain r where r: "selector b ?valid zs sc = Inr r"
      using selector_total [of ?valid b zs sc] by blast
    from "1.IH" [OF _ refl _ r] True obtain st where
      "select_loop b sc al n (zs @ [fst r]) (calls @ [(?valid, zs)]) = Inr st" by auto
    with True r show ?thesis by (subst select_loop.simps) (simp add: Let_def)
  qed
qed

lemma prune_loop_total:
  "\<exists>pruned. prune_loop float_add sc thr zs b = Inr pruned"
proof (induction float_add sc thr zs b rule: prune_loop.induct)
  case (1 float_add sc thr zs b)
  let ?r = "prune_round float_add sc thr zs zs b PyNone"
  show ?case
  proof (cases "snd ?r \<noteq> PyNone")
    case False
    then show ?thesis by (subst prune_loop.simps) (simp add: Let_def)
  next
    case True
    with prune_round_in [of float_add sc thr zs zs b PyNone] have "snd ?r \<in> set zs" by auto
    then have rm: "remove_py zs (snd ?r) = Inr (remove1 (snd ?r) zs)"
      by (simp add: remove_py_def)
    from "1.IH" [OF refl True rm] obtain pruned where
      "prune_loop float_add sc thr (remove1 (snd ?r) zs) (fst ?r) = Inr pruned" by blast
    with True rm show ?thesis by (subst prune_loop.simps) (simp add: Let_def)
  qed
qed

section \<open>What a call changes\<close>

text \<open>
  Each loop on the store computes what its counterpart on values computes, and writes it
  to the object the local variable refers to.
\<close>

lemma select_loop_heap_refines:
  "p \<noteq> l \<Longrightarrow>
   select_loop_heap b sc p n l h =
     (case select_loop b sc (cells h p) n (cells h l) calls of
        Inl e \<Rightarrow> Inl e
      | Inr st \<Rightarrow> Inr (h\<lparr>cells := (cells h)(l := fst st)\<rparr>))"
proof (induction b sc p n l h arbitrary: calls rule: select_loop_heap.induct)
  case (1 b sc p n l h)
  let ?valid = "filter (\<lambda>c. c \<notin> set (cells h l)) (cells h p)"
  show ?case
  proof (cases "int (length (cells h l)) < n \<and> ?valid \<noteq> []")
    case False
    then have "select_loop_heap b sc p n l h = Inr h"
      by (subst select_loop_heap.simps) (auto simp: Let_def)
    moreover from False have "select_loop b sc (cells h p) n (cells h l) calls
        = Inr (cells h l, calls)"
      by (subst select_loop.simps) (auto simp: Let_def)
    ultimately show ?thesis by simp
  next
    case True
    then obtain r where r: "selector b ?valid (cells h l) sc = Inr r"
      using selector_total [of ?valid b "cells h l" sc] by blast
    let ?h1 = "append_at h l (fst r)"
    have c: "cells ?h1 p = cells h p" "cells ?h1 l = cells h l @ [fst r]"
      using "1.prems" by (simp_all add: append_at_def)
    have u: "?h1\<lparr>cells := (cells ?h1)(l := zs)\<rparr> = h\<lparr>cells := (cells h)(l := zs)\<rparr>" for zs
      by (simp add: append_at_def)
    have "select_loop_heap b sc p n l h = select_loop_heap b sc p n l ?h1"
      using True r by (subst select_loop_heap.simps) (simp add: Let_def)
    also have "\<dots> = (case select_loop b sc (cells h p) n (cells h l @ [fst r])
                           (calls @ [(?valid, cells h l)]) of
                        Inl e \<Rightarrow> Inl e
                      | Inr st \<Rightarrow> Inr (h\<lparr>cells := (cells h)(l := fst st)\<rparr>))"
      using "1.IH" [OF _ refl _ r "1.prems", of "calls @ [(?valid, cells h l)]"] True
      by (simp add: c u split: sum.splits)
    also have "select_loop b sc (cells h p) n (cells h l @ [fst r]) (calls @ [(?valid, cells h l)])
        = select_loop b sc (cells h p) n (cells h l) calls"
      using True r by (subst (2) select_loop.simps) (simp add: Let_def)
    finally show ?thesis .
  qed
qed

lemma prune_loop_heap_refines:
  "prune_loop_heap float_add sc thr l best h =
     (case prune_loop float_add sc thr (cells h l) best of
        Inl e \<Rightarrow> Inl e
      | Inr zs \<Rightarrow> Inr (h\<lparr>cells := (cells h)(l := zs)\<rparr>))"
proof (induction float_add sc thr l best h rule: prune_loop_heap.induct)
  case (1 float_add sc thr l best h)
  let ?r = "prune_round float_add sc thr (cells h l) (cells h l) best PyNone"
  show ?case
  proof (cases "snd ?r \<noteq> PyNone")
    case False
    then have "prune_loop_heap float_add sc thr l best h = Inr h"
      by (subst prune_loop_heap.simps) (simp add: Let_def)
    moreover from False have "prune_loop float_add sc thr (cells h l) best = Inr (cells h l)"
      by (subst prune_loop.simps) (simp add: Let_def)
    ultimately show ?thesis by simp
  next
    case True
    with prune_round_in [of float_add sc thr "cells h l" "cells h l" best PyNone]
    have m: "snd ?r \<in> set (cells h l)" by auto
    let ?zs1 = "remove1 (snd ?r) (cells h l)"
    let ?h1 = "h\<lparr>cells := (cells h)(l := ?zs1)\<rparr>"
    have rm: "remove_at h l (snd ?r) = Inr ?h1" "remove_py (cells h l) (snd ?r) = Inr ?zs1"
      using m by (simp_all add: remove_at_def remove_py_def)
    have "prune_loop_heap float_add sc thr l best h = prune_loop_heap float_add sc thr l (fst ?r) ?h1"
      using True rm by (subst prune_loop_heap.simps) (simp add: Let_def)
    also have "\<dots> = (case prune_loop float_add sc thr ?zs1 (fst ?r) of
                        Inl e \<Rightarrow> Inl e
                      | Inr zs \<Rightarrow> Inr (h\<lparr>cells := (cells h)(l := zs)\<rparr>))"
      using "1.IH" [OF refl True rm(1)] by (simp split: sum.splits)
    also have "prune_loop float_add sc thr ?zs1 (fst ?r) = prune_loop float_add sc thr (cells h l) best"
      using True rm by (subst (2) prune_loop.simps) (simp add: Let_def)
    finally show ?thesis .
  qed
qed

text \<open>
  A call of \<^verbatim>\<open>prune_zeroshot_configs\<close> returns a new object, which holds the pruned
  portfolio, and leaves every other object as it was.
\<close>

lemma prune_heap_correct:
  "\<exists>h'. prune_zeroshot_configs_heap float_add sc a thr h = Inr (next_addr h, h')
     \<and> next_addr h' = Suc (next_addr h)
     \<and> (\<forall>x. x \<noteq> next_addr h \<longrightarrow> cells h' x = cells h x)
     \<and> prune_zeroshot_configs float_add sc (cells h a) thr = Inr (cells h' (next_addr h))"
proof -
  let ?l = "next_addr h"
  let ?h1 = "h\<lparr>cells := (cells h)(?l := cells h a), next_addr := Suc ?l\<rparr>"
  obtain pruned where p: "prune_loop float_add sc thr (cells h a) (sc (cells h a)) = Inr pruned"
    using prune_loop_total by blast
  have "prune_loop_heap float_add sc thr ?l (sc (cells h a)) ?h1
      = Inr (?h1\<lparr>cells := (cells ?h1)(?l := pruned)\<rparr>)"
    using p by (simp add: prune_loop_heap_refines)
  then have "prune_zeroshot_configs_heap float_add sc a thr h
      = Inr (?l, ?h1\<lparr>cells := (cells ?h1)(?l := pruned)\<rparr>)"
    by (simp add: prune_zeroshot_configs_heap_def deepcopy_def alloc_def Let_def)
  moreover have "prune_zeroshot_configs float_add sc (cells h a) thr = Inr pruned"
    using p by (simp add: prune_zeroshot_configs_def)
  ultimately show ?thesis by simp
qed

text \<open>
  A call of \<^verbatim>\<open>select_zeroshot_configs\<close> returns a new object, which holds the
  portfolio computed on values, and leaves the objects that existed before as they were.
\<close>

lemma select_heap_correct:
  assumes "all_configs < next_addr h"
  shows "\<exists>r h'. select_zeroshot_configs_heap float_add b sc all_configs n prior rs thr h = Inr (r, h')
     \<and> next_addr h \<le> r
     \<and> (\<forall>x<next_addr h. cells h' x = cells h x)
     \<and> select_zeroshot_configs float_add b sc (cells h all_configs) n (map_option (cells h) prior) rs thr
         = Inr (cells h' r)"
proof -
  let ?l = "next_addr h"
  let ?zs0 = "case prior of None \<Rightarrow> [] | Some a \<Rightarrow> cells h a"
  let ?h1 = "h\<lparr>cells := (cells h)(?l := ?zs0), next_addr := Suc ?l\<rparr>"
  have c: "(case prior of None \<Rightarrow> alloc h [] | Some a \<Rightarrow> deepcopy h a) = (?l, ?h1)"
    by (simp add: alloc_def deepcopy_def split: option.splits)
  have z: "(case map_option (cells h) prior of None \<Rightarrow> [] | Some zs \<Rightarrow> zs) = ?zs0"
    by (simp split: option.splits)
  have ne: "all_configs \<noteq> ?l" using assms by simp
  obtain st where st: "select_loop b sc (cells h all_configs) n ?zs0 [] = Inr st"
    using select_loop_total by blast
  let ?h2 = "?h1\<lparr>cells := (cells ?h1)(?l := fst st)\<rparr>"
  have "select_loop_heap b sc all_configs n ?l ?h1
      = (case select_loop b sc (cells ?h1 all_configs) n (cells ?h1 ?l) [] of
           Inl e \<Rightarrow> Inl e
         | Inr st \<Rightarrow> Inr (?h1\<lparr>cells := (cells ?h1)(?l := fst st)\<rparr>))"
    using ne by (rule select_loop_heap_refines)
  then have loop: "select_loop_heap b sc all_configs n ?l ?h1 = Inr ?h2"
    using st ne by simp
  show ?thesis
  proof (cases rs)
    case False
    have "select_zeroshot_configs_heap float_add b sc all_configs n prior rs thr h = Inr (?l, ?h2)"
      using False loop by (simp add: select_zeroshot_configs_heap_def c)
    moreover have "select_zeroshot_configs float_add b sc (cells h all_configs) n
        (map_option (cells h) prior) rs thr = Inr (fst st)"
      unfolding select_zeroshot_configs_def Let_def z st using False by simp
    ultimately show ?thesis by simp
  next
    case True
    from prune_heap_correct [of float_add sc ?l thr ?h2] obtain h' where
      h': "prune_zeroshot_configs_heap float_add sc ?l thr ?h2 = Inr (next_addr ?h2, h')"
          "\<forall>x. x \<noteq> next_addr ?h2 \<longrightarrow> cells h' x = cells ?h2 x"
          "prune_zeroshot_configs float_add sc (cells ?h2 ?l) thr = Inr (cells h' (next_addr ?h2))"
      by blast
    have "select_zeroshot_configs_heap float_add b sc all_configs n prior rs thr h = Inr (Suc ?l, h')"
      using True loop h'(1) by (simp add: select_zeroshot_configs_heap_def c)
    moreover have "select_zeroshot_configs float_add b sc (cells h all_configs) n
        (map_option (cells h) prior) rs thr = Inr (cells h' (Suc ?l))"
      unfolding select_zeroshot_configs_def Let_def z st using True h'(3) by simp
    moreover have "\<forall>x<?l. cells h' x = cells h x" using h'(2) by simp
    ultimately show ?thesis by auto
  qed
qed

text \<open>
  C10. For the pool held by the generator and a list passed by the caller, both objects
  that exist before the call: \<^verbatim>\<open>select_zeroshot_configs\<close> with that list as prior
  portfolio, and \<^verbatim>\<open>prune_zeroshot_configs\<close> with that list as portfolio, return,
  and after the call the caller's list and the pool (and every object that existed before)
  have the content they had before; the object returned holds the portfolio that the
  functions on values compute.
\<close>

theorem caller_lists_unchanged:
  assumes "all_configs < next_addr h" and "zeroshot_configs < next_addr h"
  shows "(\<exists>r h'. select_zeroshot_configs_heap float_add b config_scorer all_configs num_zeroshot
                   (Some zeroshot_configs) removal_stage removal_threshold h = Inr (r, h')
            \<and> cells h' zeroshot_configs = cells h zeroshot_configs
            \<and> cells h' all_configs = cells h all_configs
            \<and> (\<forall>x<next_addr h. cells h' x = cells h x)
            \<and> select_zeroshot_configs float_add b config_scorer (cells h all_configs) num_zeroshot
                 (Some (cells h zeroshot_configs)) removal_stage removal_threshold
                = Inr (cells h' r))
       \<and> (\<exists>r h'. prune_zeroshot_configs_heap float_add config_scorer zeroshot_configs
                   removal_threshold h = Inr (r, h')
            \<and> cells h' zeroshot_configs = cells h zeroshot_configs
            \<and> cells h' all_configs = cells h all_configs
            \<and> (\<forall>x<next_addr h. cells h' x = cells h x)
            \<and> prune_zeroshot_configs float_add config_scorer (cells h zeroshot_configs) removal_threshold
                = Inr (cells h' r))"
proof
  from select_heap_correct [OF assms(1), of float_add b config_scorer num_zeroshot
      "Some zeroshot_configs" removal_stage removal_threshold]
  show "\<exists>r h'. select_zeroshot_configs_heap float_add b config_scorer all_configs num_zeroshot
                   (Some zeroshot_configs) removal_stage removal_threshold h = Inr (r, h')
            \<and> cells h' zeroshot_configs = cells h zeroshot_configs
            \<and> cells h' all_configs = cells h all_configs
            \<and> (\<forall>x<next_addr h. cells h' x = cells h x)
            \<and> select_zeroshot_configs float_add b config_scorer (cells h all_configs) num_zeroshot
                 (Some (cells h zeroshot_configs)) removal_stage removal_threshold
                = Inr (cells h' r)"
    using assms by auto
next
  from prune_heap_correct [of float_add config_scorer zeroshot_configs removal_threshold h]
  show "\<exists>r h'. prune_zeroshot_configs_heap float_add config_scorer zeroshot_configs
                   removal_threshold h = Inr (r, h')
            \<and> cells h' zeroshot_configs = cells h zeroshot_configs
            \<and> cells h' all_configs = cells h all_configs
            \<and> (\<forall>x<next_addr h. cells h' x = cells h x)
            \<and> prune_zeroshot_configs float_add config_scorer (cells h zeroshot_configs) removal_threshold
                = Inr (cells h' r)"
    using assms by auto
qed

theorem caller_lists_unchanged_witness:
  "(0::nat) < next_addr caller_heap \<and> (1::nat) < next_addr caller_heap
   \<and> (\<exists>r h'. select_zeroshot_configs_heap exact_add Ray keep_ac_scorer 0 2 (Some 1) True 0 caller_heap
               = Inr (r, h')
        \<and> cells h' 1 = [PyStr ''B'']
        \<and> cells h' 0 = [PyStr ''A'', PyStr ''B'', PyStr ''C'']
        \<and> select_zeroshot_configs exact_add Ray keep_ac_scorer [PyStr ''A'', PyStr ''B'', PyStr ''C''] 2
             (Some [PyStr ''B'']) True 0 = Inr (cells h' r))
   \<and> (\<exists>r h'. prune_zeroshot_configs_heap exact_add keep_ac_scorer 1 0 caller_heap = Inr (r, h')
        \<and> cells h' 1 = [PyStr ''B'']
        \<and> cells h' 0 = [PyStr ''A'', PyStr ''B'', PyStr ''C''])"
proof -
  have a: "(0::nat) < next_addr caller_heap" and b: "(1::nat) < next_addr caller_heap"
    by (simp_all add: caller_heap_def)
  have c: "cells caller_heap 0 = [PyStr ''A'', PyStr ''B'', PyStr ''C'']"
    "cells caller_heap 1 = [PyStr ''B'']"
    by (simp_all add: caller_heap_def)
  from caller_lists_unchanged [OF a b, where float_add = exact_add and b = Ray
      and config_scorer = keep_ac_scorer and num_zeroshot = 2 and removal_stage = True
      and removal_threshold = 0] a b
  show ?thesis unfolding c by blast
qed

section \<open>Forward selection in parallel mode and below the initial best score\<close>

text \<open>
  When every score is below 999999999 the sequential mode computes what the parallel mode
  computes.
\<close>

lemma select_loop_agree:
  assumes "\<forall>xs. sc xs < 999999999"
  shows "select_loop Sequential sc al n zs calls = select_loop Ray sc al n zs calls"
proof (induction "nat (n - int (length zs))" arbitrary: zs calls rule: less_induct)
  case less
  let ?valid = "filter (\<lambda>c. c \<notin> set zs) al"
  show ?case
  proof (cases "int (length zs) < n \<and> ?valid \<noteq> []")
    case False
    have "select_loop b sc al n zs calls = Inr (zs, calls)" for b
      using False by (subst select_loop.simps) (auto simp: Let_def)
    then show ?thesis by simp
  next
    case True
    then obtain a where "a \<in> set ?valid" by (cases ?valid) auto
    with assms have "\<exists>c\<in>set ?valid. sc (zs @ [c]) < 999999999" by blast
    then have ag: "selector Sequential ?valid zs sc = selector Ray ?valid zs sc"
      by (rule selectors_agree)
    obtain r where r: "selector Ray ?valid zs sc = Inr r"
      using True selector_total [of ?valid Ray zs sc] by blast
    have step: "select_loop b sc al n zs calls
        = select_loop b sc al n (zs @ [fst r]) (calls @ [(?valid, zs)])"
      if "selector b ?valid zs sc = Inr r" for b
      using True that by (subst select_loop.simps) (simp add: Let_def)
    have "nat (n - int (length (zs @ [fst r]))) < nat (n - int (length zs))"
      using True by simp
    from less.hyps [OF this] step [of Ray] step [of Sequential] r ag
    show ?thesis by simp
  qed
qed

lemma select_agree_below_sentinel:
  assumes "\<forall>xs. sc xs < 999999999"
  shows "select_zeroshot_configs float_add Sequential sc al n prior rs thr
       = select_zeroshot_configs float_add Ray sc al n prior rs thr"
  by (simp add: select_zeroshot_configs_def select_loop_agree [OF assms])

text \<open>
  In parallel mode the loop keeps the portfolio duplicate-free, draws from the pool only,
  and stops at the target size or when the pool is exhausted.
\<close>

lemma select_loop_ray_invariant:
  assumes "distinct zs"
  shows "\<exists>zs' calls'. select_loop Ray sc al n zs calls = Inr (zs', calls')
     \<and> distinct zs' \<and> set zs' \<subseteq> set zs \<union> set al
     \<and> (n \<le> int (length zs') \<or> set al \<subseteq> set zs')"
  using assms
proof (induction "nat (n - int (length zs))" arbitrary: zs calls rule: less_induct)
  case less
  let ?valid = "filter (\<lambda>c. c \<notin> set zs) al"
  show ?case
  proof (cases "int (length zs) < n \<and> ?valid \<noteq> []")
    case False
    have e: "select_loop Ray sc al n zs calls = Inr (zs, calls)"
      using False by (subst select_loop.simps) (auto simp: Let_def)
    from False have "n \<le> int (length zs) \<or> set al \<subseteq> set zs"
      by (auto simp: filter_empty_conv)
    with e less.prems show ?thesis by auto
  next
    case True
    then have ne: "?valid \<noteq> []" by simp
    from select_ray_first_min [OF ne, of zs sc] obtain pre c post where
      c: "?valid = pre @ c # post" "select_ray ?valid zs sc = Inr (c, sc (zs @ [c]))"
      by blast
    have "c \<in> set ?valid" unfolding c(1) by simp
    then have cin: "c \<in> set al" "c \<notin> set zs" by auto
    have sel: "selector Ray ?valid zs sc = Inr (c, sc (zs @ [c]))"
      using c(2) by (simp add: selector_def)
    have step: "select_loop Ray sc al n zs calls
        = select_loop Ray sc al n (zs @ [c]) (calls @ [(?valid, zs)])"
      using True sel by (subst select_loop.simps) (simp add: Let_def)
    have m: "nat (n - int (length (zs @ [c]))) < nat (n - int (length zs))"
      using True by simp
    have d: "distinct (zs @ [c])" using less.prems cin by simp
    from less.hyps [OF m d, of "calls @ [(?valid, zs)]"] obtain zs' calls' where
      h: "select_loop Ray sc al n (zs @ [c]) (calls @ [(?valid, zs)]) = Inr (zs', calls')"
         "distinct zs'" "set zs' \<subseteq> set (zs @ [c]) \<union> set al"
         "n \<le> int (length zs') \<or> set al \<subseteq> set zs'"
      by blast
    have "set zs' \<subseteq> set zs \<union> set al" using h(3) cin by auto
    with step h show ?thesis by auto
  qed
qed

lemma select_ray_no_duplicates:
  assumes "distinct prior"
  shows "\<exists>zs. select_zeroshot_configs float_add Ray sc al n (Some prior) False thr = Inr zs
           \<and> distinct zs"
proof -
  from select_loop_ray_invariant [OF assms, of sc al n "[]"] obtain zs' calls' where
    "select_loop Ray sc al n prior [] = Inr (zs', calls')" "distinct zs'" by blast
  then show ?thesis by (simp add: select_zeroshot_configs_def)
qed

text \<open>
  In parallel mode, from an empty prior portfolio and a target above the size of a
  duplicate-free pool, the portfolio returned holds the pool.
\<close>

lemma select_ray_exhausts_pool:
  assumes "distinct al" and "int (length al) < n"
  shows "\<exists>zs. select_zeroshot_configs float_add Ray sc al n None False thr = Inr zs
           \<and> length zs = length al \<and> set zs = set al"
proof -
  have "distinct ([] :: pyval list)" by simp
  from select_loop_ray_invariant [OF this, of sc al n "[]"] obtain zs' calls' where
    h: "select_loop Ray sc al n [] [] = Inr (zs', calls')" "distinct zs'"
       "set zs' \<subseteq> set al" "n \<le> int (length zs') \<or> set al \<subseteq> set zs'"
    by auto
  have "length zs' \<le> length al"
    using h(2) h(3) assms(1) by (metis card_mono distinct_card finite_set)
  with assms(2) h(4) have "set al \<subseteq> set zs'" by auto
  with h(3) have s: "set zs' = set al" by auto
  then have "length zs' = length al"
    using h(2) assms(1) by (metis distinct_card)
  with h(1) s show ?thesis by (simp add: select_zeroshot_configs_def)
qed

section \<open>Properties of cross-validation\<close>

text \<open>
  An array of integers that all fit in 64 signed bits holds them as they are, and so does
  the rounding to a float for an integer of at most 53 bits.
\<close>

lemma np_array_int64:
  "\<forall>x\<in>set xs. - (2 ^ 63) \<le> x \<and> x < 2 ^ 63 \<Longrightarrow> np_array xs = xs"
  by (simp add: np_array_def)

lemma excess_bits_small: "a < 2 ^ 53 \<Longrightarrow> excess_bits a = 0"
  by (subst excess_bits.simps) simp

lemma float64_small: "\<bar>x\<bar> < 2 ^ 53 \<Longrightarrow> float64 x = x"
proof -
  assume a: "\<bar>x\<bar> < 2 ^ 53"
  then have "nat \<bar>x\<bar> < 2 ^ 53" by (simp add: nat_less_iff)
  then have e: "excess_bits (nat \<bar>x\<bar>) = 0" by (rule excess_bits_small)
  have "sgn x * \<bar>x\<bar> = x" by (simp add: mult_sgn_abs)
  then show ?thesis unfolding float64_def Let_def e by simp
qed

text \<open>
  Shuffling permutes: whatever the generator draws, the shuffled list has the elements
  of the list, as often.
\<close>

lemma shuffle_raw_perm:
  "i < length x \<Longrightarrow>
   set (fst (shuffle_raw np i g x)) = set x
   \<and> distinct (fst (shuffle_raw np i g x)) = distinct x
   \<and> length (fst (shuffle_raw np i g x)) = length x"
proof (induction i arbitrary: g x)
  case 0
  then show ?case by simp
next
  case (Suc i)
  obtain r g' where d: "random_interval np g (Suc i) = (r, g')" by (cases "random_interval np g (Suc i)")
  let ?j = "r mod Suc (Suc i)"
  let ?x = "x[Suc i := x ! ?j, ?j := x ! Suc i]"
  have j: "?j < length x" using Suc.prems
    by (meson Suc_lessI mod_less_divisor less_trans_Suc not_less_eq zero_less_Suc less_trans)
  have e: "shuffle_raw np (Suc i) g x = shuffle_raw np i g' ?x"
    by (simp add: d Let_def)
  have l: "i < length ?x" using Suc.prems by simp
  from Suc.IH [OF l, of g'] show ?case
    unfolding e using Suc.prems j by (simp add: set_swap distinct_swap)
qed

lemma np_shuffle_perm:
  "set (fst (np_shuffle np g x)) = set x
   \<and> distinct (fst (np_shuffle np g x)) = distinct x
   \<and> length (fst (np_shuffle np g x)) = length x"
proof (cases x)
  case Nil
  then show ?thesis by (simp add: np_shuffle_def)
next
  case (Cons a y)
  then have "length x - 1 < length x" by simp
  from shuffle_raw_perm [OF this] show ?thesis by (simp add: np_shuffle_def)
qed

text \<open>
  The slices, put end to end, are the part of the list they are cut from; the sizes of
  the folds add up to the number of samples.
\<close>

lemma slices_length: "length (slices fs c xs) = length fs"
  by (induction fs arbitrary: c) auto

lemma slices_concat: "concat (slices fs c xs) = take (sum_list fs) (drop c xs)"
proof (induction fs arbitrary: c)
  case Nil
  then show ?case by simp
next
  case (Cons f fs)
  have "take (f + sum_list fs) (drop c xs)
          = take f (drop c xs) @ take (sum_list fs) (drop f (drop c xs))"
    by (rule take_add)
  then show ?case using Cons.IH [of "c + f"] by (simp add: add.commute)
qed

lemma fold_sizes_sum_upto:
  "sum_list (map (\<lambda>i. d + (if i < r then 1 else 0)) [0..<m]) = m * d + min m r"
  by (induction m) auto

lemma fold_sizes_sum:
  "0 < k \<Longrightarrow>
   sum_list (map (\<lambda>i. n div k + (if i < n mod k then 1 else 0)) [0..<k]) = (n :: nat)"
proof -
  assume k: "0 < k"
  then have "min k (n mod k) = n mod k" by (simp add: less_imp_le min_absorb2)
  then show ?thesis by (simp add: fold_sizes_sum_upto)
qed

lemma concat_disjoint:
  "distinct (concat xss) \<Longrightarrow> i < length xss \<Longrightarrow> j < length xss \<Longrightarrow> i \<noteq> j \<Longrightarrow>
   set (xss ! i) \<inter> set (xss ! j) = {}"
proof (induction xss arbitrary: i j)
  case Nil
  then show ?case by simp
next
  case (Cons a xss)
  from Cons.prems(1) have d: "distinct (concat xss)"
    and a: "\<forall>ys\<in>set xss. set a \<inter> set ys = {}" by auto
  show ?case
  proof (cases i)
    case 0
    with Cons.prems obtain j' where j: "j = Suc j'" "j' < length xss" by (cases j) auto
    then show ?thesis using 0 a by auto
  next
    case (Suc i')
    show ?thesis
    proof (cases j)
      case 0
      with Suc Cons.prems a show ?thesis by auto
    next
      case (Suc j')
      with \<open>i = Suc i'\<close> Cons.prems Cons.IH [OF d, of i' j'] show ?thesis by auto
    qed
  qed
qed

text \<open>
  With at least one split and at most as many splits as samples, \<^verbatim>\<open>split\<close> returns, and
  what it yields is a K-fold partition of the indices, whatever the generator draws.
\<close>

lemma KFold_split_partition:
  assumes "1 \<le> kf_n_splits kf" and "kf_n_splits kf \<le> int n"
  shows "\<exists>splits. KFold_split np g kf n = Inr splits
           \<and> kfold_partition (nat (kf_n_splits kf)) n splits"
proof -
  let ?k = "nat (kf_n_splits kf)"
  let ?idx = "if kf_shuffle kf
              then fst (np_shuffle np (check_random_state np g (kf_random_state kf)) [0..<n])
              else [0..<n]"
  let ?sizes = "map (\<lambda>i. n div ?k + (if i < n mod ?k then 1 else 0)) [0..<?k]"
  let ?tests = "slices ?sizes 0 ?idx"
  let ?pair = "\<lambda>t. (filter (\<lambda>i. i \<notin> set t) [0..<n], filter (\<lambda>i. i \<in> set t) [0..<n])"
  let ?splits = "map ?pair ?tests"
  have k: "0 < ?k" using assms(1) by simp
  have it: "iter_test_indices np g kf n = ?tests"
    by (simp add: iter_test_indices_def Let_def)
  have sp: "KFold_split np g kf n = Inr ?splits"
    using assms(2) by (simp add: KFold_split_def it)
  have idx: "set ?idx = set [0..<n]" "distinct ?idx" "length ?idx = n"
    using np_shuffle_perm [of np "check_random_state np g (kf_random_state kf)" "[0..<n]"]
    by (simp_all split: if_splits)
  have "concat ?tests = take (sum_list ?sizes) (drop 0 ?idx)" by (rule slices_concat)
  also have "sum_list ?sizes = n" using k by (rule fold_sizes_sum)
  finally have c: "concat ?tests = ?idx" using idx(3) by simp
  have len: "length ?splits = ?k" by (simp add: slices_length)
  have sub: "set t \<subseteq> set [0..<n]" if "t \<in> set ?tests" for t
  proof -
    from that have "set t \<subseteq> set (concat ?tests)" by auto
    then show ?thesis unfolding c idx(1) .
  qed
  have each: "\<forall>s\<in>set ?splits. set (fst s) \<union> set (snd s) = set [0..<n]
                         \<and> set (fst s) \<inter> set (snd s) = {}"
    by auto
  have snd_eq: "set (snd (?splits ! i)) = set (?tests ! i)" if "i < length ?tests" for i
  proof -
    from that have "?tests ! i \<in> set ?tests" by (rule nth_mem)
    from sub [OF this] have "set (?tests ! i) \<subseteq> set [0..<n]" .
    moreover have "snd (?splits ! i) = filter (\<lambda>j. j \<in> set (?tests ! i)) [0..<n]"
      using that by (simp only: nth_map snd_conv)
    ultimately show ?thesis by auto
  qed
  have dis: "\<forall>i<length ?splits. \<forall>j<length ?splits. i \<noteq> j \<longrightarrow>
           set (snd (?splits ! i)) \<inter> set (snd (?splits ! j)) = {}"
  proof (intro allI impI)
    fix i j assume ij: "i < length ?splits" "j < length ?splits" "i \<noteq> j"
    then have l: "i < length ?tests" "j < length ?tests" by (simp_all only: length_map)
    have "distinct (concat ?tests)" unfolding c by (rule idx(2))
    from concat_disjoint [OF this l ij(3)] show
      "set (snd (?splits ! i)) \<inter> set (snd (?splits ! j)) = {}"
      unfolding snd_eq [OF l(1)] snd_eq [OF l(2)] .
  qed
  have cov: "(\<Union>s\<in>set ?splits. set (snd s)) = set [0..<n]"
  proof -
    have "(\<Union>s\<in>set ?splits. set (snd s)) = (\<Union>t\<in>set ?tests. set t \<inter> set [0..<n])"
      by auto
    also have "\<dots> = (\<Union>t\<in>set ?tests. set t)" using sub by blast
    also have "\<dots> = set (concat ?tests)" by simp
    also have "\<dots> = set [0..<n]" unfolding c by (rule idx(1))
    finally show ?thesis .
  qed
  have "kfold_partition ?k n ?splits"
    unfolding kfold_partition_def using len each dis cov by (intro conjI)
  with sp show ?thesis by (intro exI conjI)
qed

text \<open>
  A seeded splitter does not read the global generator.
\<close>

lemma KFold_split_seeded:
  "kf_random_state kf = Some s \<Longrightarrow> KFold_split np g kf n = KFold_split np g' kf n"
  unfolding KFold_split_def iter_test_indices_def check_random_state_def Let_def by simp

text \<open>
  After the first iteration of \<^verbatim>\<open>__init__\<close> the set holds the parents of the datasets
  and the dictionary has exactly these parents as keys.
\<close>

lemma init_loop_result:
  "init_loop m ds u fm = Inr st \<Longrightarrow>
   fst st = u \<union> {p. \<exists>d\<in>set ds. m d = Some p}
   \<and> dom (snd st) = dom fm \<union> {p. \<exists>d\<in>set ds. m d = Some p}"
proof (induction ds arbitrary: u fm)
  case Nil
  then show ?case by auto
next
  case (Cons d ds)
  then obtain p where p: "m d = Some p" by (auto split: option.splits)
  let ?fm = "case fm p of Some l \<Rightarrow> fm(p \<mapsto> l @ [d]) | None \<Rightarrow> fm(p \<mapsto> [d])"
  from Cons.prems p have "init_loop m ds (insert p u) ?fm = Inr st" by simp
  from Cons.IH [OF this] have
    "fst st = insert p u \<union> {p. \<exists>d\<in>set ds. m d = Some p}"
    "dom (snd st) = dom ?fm \<union> {p. \<exists>d\<in>set ds. m d = Some p}" by auto
  moreover have "dom ?fm = insert p (dom fm)" by (auto split: option.splits)
  ultimately show ?case using p by auto
qed

lemma init_loop_total:
  "\<forall>d\<in>set ds. m d \<noteq> None \<Longrightarrow> \<exists>st. init_loop m ds u fm = Inr st"
  by (induction ds arbitrary: u fm) auto

lemma KFold_init_seeded:
  "2 \<le> n_splits \<Longrightarrow>
   KFold_init n_splits (Some 0) True
     = Inr \<lparr>kf_n_splits = n_splits, kf_shuffle = True, kf_random_state = Some 0\<rparr>"
  by (simp add: KFold_init_def)

text \<open>
  When every dataset has a parent and the parents fit in 64 signed bits, the constructor
  returns a generator whose array \<^verbatim>\<open>unique_datasets\<close> is duplicate-free and holds the
  parents of the datasets of the scorer, and whose splitter shuffles with the seed 0.
\<close>

lemma cv_init_universe:
  assumes "2 \<le> n_splits"
    and "\<forall>d\<in>set datasets. m (np_str d) \<noteq> None"
    and "\<forall>d\<in>set datasets. \<forall>p. m (np_str d) = Some p \<longrightarrow> - (2 ^ 63) \<le> p \<and> p < 2 ^ 63"
  shows "\<exists>cv. cv_init n_splits datasets m sub configs get_configs b = Inr cv
     \<and> distinct (cv_unique_datasets cv)
     \<and> set (cv_unique_datasets cv) = {p. \<exists>d\<in>set datasets. m (np_str d) = Some p}
     \<and> dom (cv_dataset_parent_to_fold_map cv) = set (cv_unique_datasets cv)
     \<and> cv_kf cv = \<lparr>kf_n_splits = n_splits, kf_shuffle = True, kf_random_state = Some 0\<rparr>"
proof -
  let ?U = "{p. \<exists>d\<in>set datasets. m (np_str d) = Some p}"
  from assms(2) have "\<forall>d\<in>set (map np_str datasets). m d \<noteq> None" by simp
  from init_loop_total [OF this] obtain st where
    st: "init_loop m (map np_str datasets) {} Map.empty = Inr st" by blast
  from init_loop_result [OF st] have
    u: "fst st = ?U" and d: "dom (snd st) = ?U" by auto
  have "?U \<subseteq> (\<lambda>d. the (m (np_str d))) ` set datasets" by force
  then have fin: "finite ?U" by (rule finite_subset) simp
  have "\<forall>x\<in>set (sorted_list_of_set ?U). - (2 ^ 63) \<le> x \<and> x < 2 ^ 63"
    using fin assms(3) by auto
  then have a: "np_array (sorted_list_of_set ?U) = sorted_list_of_set ?U"
    by (rule np_array_int64)
  let ?cv = "\<lparr>cv_n_splits = n_splits, cv_backend = b, cv_subset = sub,
              cv_unique_datasets = sorted_list_of_set ?U,
              cv_dataset_parent_to_fold_map = (\<lambda>d. map_option sort (snd st d)),
              cv_configs = (case configs of None \<Rightarrow> get_configs | Some c \<Rightarrow> c),
              cv_kf = \<lparr>kf_n_splits = n_splits, kf_shuffle = True, kf_random_state = Some 0\<rparr>\<rparr>"
  have "cv_init n_splits datasets m sub configs get_configs b = Inr ?cv"
    using assms(1) by (simp add: cv_init_def st KFold_init_seeded u a)
  moreover have "distinct (cv_unique_datasets ?cv)" by simp
  moreover have "set (cv_unique_datasets ?cv) = ?U" using fin by simp
  moreover have "dom (cv_dataset_parent_to_fold_map ?cv) = set (cv_unique_datasets ?cv)"
    using fin d by (auto simp: dom_def)
  moreover have "cv_kf ?cv = \<lparr>kf_n_splits = n_splits, kf_shuffle = True, kf_random_state = Some 0\<rparr>"
    by simp
  ultimately show ?thesis by blast
qed

lemma expand_folds_total:
  "set ds \<subseteq> dom fm \<Longrightarrow> \<exists>ls. expand_folds fm ds = Inr ls"
  by (induction ds) (auto split: option.splits sum.splits)

text \<open>
  Indexing a duplicate-free array by two index lists that split its indices gives two
  lists that split its elements.
\<close>

lemma index_array_sets:
  assumes "distinct xs" and "set tr \<union> set te = set [0..<length xs]" and "set tr \<inter> set te = {}"
  shows "\<exists>a b. index_array xs tr = Inr a \<and> index_array xs te = Inr b
           \<and> a = map (\<lambda>i. xs ! i) tr \<and> b = map (\<lambda>i. xs ! i) te
           \<and> set a \<inter> set b = {} \<and> set a \<union> set b = set xs
           \<and> set b = (\<lambda>i. xs ! i) ` set te"
proof -
  have r: "\<forall>i\<in>set tr. i < length xs" "\<forall>i\<in>set te. i < length xs"
    using assms(2) by auto
  have "(\<lambda>i. xs ! i) ` set tr \<inter> (\<lambda>i. xs ! i) ` set te = {}"
  proof (rule ccontr)
    assume "(\<lambda>i. xs ! i) ` set tr \<inter> (\<lambda>i. xs ! i) ` set te \<noteq> {}"
    then obtain i j where "i \<in> set tr" "j \<in> set te" "xs ! i = xs ! j" by auto
    with r assms(1) have "i = j" by (simp add: nth_eq_iff_index_eq)
    with \<open>i \<in> set tr\<close> \<open>j \<in> set te\<close> assms(3) show False by auto
  qed
  moreover have "(\<lambda>i. xs ! i) ` set tr \<union> (\<lambda>i. xs ! i) ` set te = set xs"
  proof -
    have "set (map (\<lambda>i. xs ! i) [0..<length xs]) = set xs"
      by (simp only: map_nth)
    then have "(\<lambda>i. xs ! i) ` (set tr \<union> set te) = set xs"
      unfolding assms(2) by (simp only: set_map)
    then show ?thesis by (simp add: image_Un)
  qed
  ultimately show ?thesis using r by (simp add: index_array_def)
qed

lemma run_fold_total:
  "\<exists>res. run_fold float_add cv a b = Inr res"
proof -
  obtain st where "select_loop (cv_backend cv) (cv_subset cv a) (cv_configs cv) 10 [] [] = Inr st"
    using select_loop_total by blast
  then show ?thesis by (simp add: run_fold_def select_zeroshot_configs_def)
qed

text \<open>The body of \<^verbatim>\<open>run\<close> returns one record for each pair of index lists.\<close>

lemma run_folds_records:
  assumes "distinct (cv_unique_datasets cv)"
    and "dom (cv_dataset_parent_to_fold_map cv) = set (cv_unique_datasets cv)"
    and "\<forall>s\<in>set splits. set (fst s) \<union> set (snd s) = set [0..<length (cv_unique_datasets cv)]
                         \<and> set (fst s) \<inter> set (snd s) = {}"
  shows "\<exists>records. run_folds float_add cv i splits = Inr records
     \<and> map X_train records = map (\<lambda>s. map (\<lambda>i. cv_unique_datasets cv ! i) (fst s)) splits
     \<and> map X_test records = map (\<lambda>s. map (\<lambda>i. cv_unique_datasets cv ! i) (snd s)) splits"
  using assms(3)
proof (induction splits arbitrary: i)
  case Nil
  then show ?case by simp
next
  case (Cons s splits)
  let ?u = "cv_unique_datasets cv"
  from Cons.prems have s: "set (fst s) \<union> set (snd s) = set [0..<length ?u]"
    "set (fst s) \<inter> set (snd s) = {}" by auto
  from index_array_sets [OF assms(1) s] obtain a b where
    ab: "index_array ?u (fst s) = Inr a" "index_array ?u (snd s) = Inr b"
        "a = map (\<lambda>i. ?u ! i) (fst s)" "b = map (\<lambda>i. ?u ! i) (snd s)"
        "set a \<union> set b = set ?u"
    by blast
  from ab(5) assms(2) have "set a \<subseteq> dom (cv_dataset_parent_to_fold_map cv)"
    "set b \<subseteq> dom (cv_dataset_parent_to_fold_map cv)" by auto
  then obtain af bf where
    f: "expand_folds (cv_dataset_parent_to_fold_map cv) a = Inr af"
       "expand_folds (cv_dataset_parent_to_fold_map cv) b = Inr bf"
    using expand_folds_total by blast
  obtain res where res: "run_fold float_add cv af bf = Inr res" using run_fold_total by blast
  from Cons.IH [of "Suc i"] Cons.prems obtain records where
    r: "run_folds float_add cv (Suc i) splits = Inr records"
       "map X_train records = map (\<lambda>s. map (\<lambda>i. ?u ! i) (fst s)) splits"
       "map X_test records = map (\<lambda>s. map (\<lambda>i. ?u ! i) (snd s)) splits"
    by auto
  show ?case using ab(1-4) f res r by simp
qed

text \<open>
  C5 (amended). For a scorer whose datasets all have a parent in the mapping, the parents
  being integers that fit in 64 signed bits, and \<^verbatim>\<open>n_splits\<close> at least 2 and at most the
  number of parents: the constructor returns and \<^verbatim>\<open>run\<close> returns \<^verbatim>\<open>n_splits\<close> records;
  in each, \<^verbatim>\<open>X_train\<close> and \<^verbatim>\<open>X_test\<close> are disjoint and together hold the parents of all
  datasets; the \<^verbatim>\<open>X_test\<close> lists of two different records are disjoint, and together
  they hold all parents; and \<^verbatim>\<open>run\<close> returns the same records in whatever state the
  global generator is (the splitter is seeded with 0), so that two runs from the same
  inputs give the same fold assignments. This holds for every generator, that is whatever
  numbers it draws.
\<close>

theorem cv_folds_partition:
  assumes "2 \<le> n_splits"
    and "\<forall>d\<in>set datasets. dataset_name_to_tid_dict (np_str d) \<noteq> None"
    and "\<forall>d\<in>set datasets. \<forall>p. dataset_name_to_tid_dict (np_str d) = Some p
           \<longrightarrow> - (2 ^ 63) \<le> p \<and> p < 2 ^ 63"
    and "nat n_splits \<le> card {p. \<exists>d\<in>set datasets. dataset_name_to_tid_dict (np_str d) = Some p}"
  shows "\<exists>cv fold_results.
       cv_init n_splits datasets dataset_name_to_tid_dict scorer_subset configs get_configs b = Inr cv
     \<and> set (cv_unique_datasets cv)
         = {p. \<exists>d\<in>set datasets. dataset_name_to_tid_dict (np_str d) = Some p}
     \<and> run float_add np global_state cv = Inr fold_results
     \<and> length fold_results = nat n_splits
     \<and> (\<forall>r\<in>set fold_results.
           set (X_train r) \<inter> set (X_test r) = {}
         \<and> set (X_train r) \<union> set (X_test r) = set (cv_unique_datasets cv))
     \<and> (\<forall>i<length fold_results. \<forall>j<length fold_results. i \<noteq> j \<longrightarrow>
           set (X_test (fold_results ! i)) \<inter> set (X_test (fold_results ! j)) = {})
     \<and> (\<Union>r\<in>set fold_results. set (X_test r)) = set (cv_unique_datasets cv)
     \<and> (\<forall>other_state. run float_add np other_state cv = Inr fold_results)"
proof -
  let ?U = "{p. \<exists>d\<in>set datasets. dataset_name_to_tid_dict (np_str d) = Some p}"
  let ?kf = "\<lparr>kf_n_splits = n_splits, kf_shuffle = True, kf_random_state = Some 0\<rparr>"
  from cv_init_universe [OF assms(1) assms(2) assms(3), of scorer_subset configs get_configs b]
  obtain cv where
    cv: "cv_init n_splits datasets dataset_name_to_tid_dict scorer_subset configs get_configs b
           = Inr cv"
    and u1: "distinct (cv_unique_datasets cv)"
    and u2: "set (cv_unique_datasets cv) = ?U"
    and u3: "dom (cv_dataset_parent_to_fold_map cv) = set (cv_unique_datasets cv)"
    and u4: "cv_kf cv = ?kf"
    by (elim exE conjE)
  let ?u = "cv_unique_datasets cv"
  let ?at = "\<lambda>ix. map (\<lambda>i. ?u ! i) ix"
  have "card ?U = length ?u" using u1 u2 by (metis distinct_card)
  with assms(1) assms(4) have n: "kf_n_splits (cv_kf cv) \<le> int (length ?u)"
    unfolding u4 by simp
  have one: "1 \<le> kf_n_splits (cv_kf cv)" using assms(1) unfolding u4 by simp
  from KFold_split_partition [OF one n, of np global_state] obtain splits where
    sp: "KFold_split np global_state (cv_kf cv) (length ?u) = Inr splits"
    and kp: "kfold_partition (nat n_splits) (length ?u) splits"
    unfolding u4 by auto
  from kp have
    k: "length splits = nat n_splits"
    and part: "\<forall>s\<in>set splits. set (fst s) \<union> set (snd s) = set [0..<length ?u]
                               \<and> set (fst s) \<inter> set (snd s) = {}"
    and disj: "\<forall>i<length splits. \<forall>j<length splits. i \<noteq> j \<longrightarrow>
                 set (snd (splits ! i)) \<inter> set (snd (splits ! j)) = {}"
    and cover: "(\<Union>s\<in>set splits. set (snd s)) = set [0..<length ?u]"
    by (simp_all add: kfold_partition_def)
  from run_folds_records [OF u1 u3 part, of float_add 0] obtain fold_results where
    r: "run_folds float_add cv 0 splits = Inr fold_results"
       "map X_train fold_results = map (\<lambda>s. ?at (fst s)) splits"
       "map X_test fold_results = map (\<lambda>s. ?at (snd s)) splits"
    by blast
  have run: "run float_add np global_state cv = Inr fold_results"
    using r(1) sp by (simp add: run_def)
  have rep: "\<forall>other_state. run float_add np other_state cv = Inr fold_results"
  proof
    fix other_state
    have "kf_random_state (cv_kf cv) = Some 0" unfolding u4 by simp
    then have "KFold_split np other_state (cv_kf cv) (length ?u)
        = KFold_split np global_state (cv_kf cv) (length ?u)"
      by (rule KFold_split_seeded)
    then show "run float_add np other_state cv = Inr fold_results"
      using r(1) sp by (simp add: run_def)
  qed
  have len: "length fold_results = length splits"
    using r(2) by (metis length_map)
  have tr: "X_train (fold_results ! i) = ?at (fst (splits ! i))"
    and te: "X_test (fold_results ! i) = ?at (snd (splits ! i))" if "i < length splits" for i
    using that len r(2) r(3) by (metis nth_map)+
  have in_range: "j < length ?u" if "i < length splits" "j \<in> set (snd (splits ! i))" for i j
    using that part by (metis UnCI atLeastLessThan_iff nth_mem set_upt)
  have each: "set (X_train (fold_results ! i)) \<inter> set (X_test (fold_results ! i)) = {}
       \<and> set (X_train (fold_results ! i)) \<union> set (X_test (fold_results ! i)) = set ?u"
    if "i < length splits" for i
  proof -
    from that part have
      "set (fst (splits ! i)) \<union> set (snd (splits ! i)) = set [0..<length ?u]"
      "set (fst (splits ! i)) \<inter> set (snd (splits ! i)) = {}" by auto
    from index_array_sets [OF u1 this] show ?thesis
      using tr [OF that] te [OF that] by auto
  qed
  have all: "\<forall>r\<in>set fold_results.
           set (X_train r) \<inter> set (X_test r) = {}
         \<and> set (X_train r) \<union> set (X_test r) = set ?u"
    using each len by (metis in_set_conv_nth)
  have pair: "\<forall>i<length fold_results. \<forall>j<length fold_results. i \<noteq> j \<longrightarrow>
           set (X_test (fold_results ! i)) \<inter> set (X_test (fold_results ! j)) = {}"
  proof (intro allI impI)
    fix i j assume ij: "i < length fold_results" "j < length fold_results" "i \<noteq> j"
    show "set (X_test (fold_results ! i)) \<inter> set (X_test (fold_results ! j)) = {}"
    proof (rule ccontr)
      assume "set (X_test (fold_results ! i)) \<inter> set (X_test (fold_results ! j)) \<noteq> {}"
      then obtain x where "x \<in> set (?at (snd (splits ! i)))" "x \<in> set (?at (snd (splits ! j)))"
        using ij len te by auto
      then obtain a c where ac: "a \<in> set (snd (splits ! i))" "c \<in> set (snd (splits ! j))"
        "?u ! a = ?u ! c" by auto
      have "a < length ?u" "c < length ?u" using ac ij len in_range by auto
      with u1 ac(3) have "a = c" by (simp add: nth_eq_iff_index_eq)
      with ac(1,2) disj ij len show False by auto
    qed
  qed
  have "(\<Union>r\<in>set fold_results. set (X_test r)) = (\<Union>s\<in>set splits. set (?at (snd s)))"
  proof -
    have "(\<Union>r\<in>set fold_results. set (X_test r)) = \<Union> (set (map (\<lambda>r. set (X_test r)) fold_results))"
      by simp
    also have "map (\<lambda>r. set (X_test r)) fold_results = map set (map X_test fold_results)"
      by simp
    also have "\<dots> = map (\<lambda>s. set (?at (snd s))) splits"
      unfolding r(3) by simp
    finally show ?thesis by simp
  qed
  also have "\<dots> = (\<lambda>i. ?u ! i) ` (\<Union>s\<in>set splits. set (snd s))" by auto
  also have "\<dots> = set (map (\<lambda>i. ?u ! i) [0..<length ?u])"
    unfolding cover by (simp only: set_map)
  also have "\<dots> = set ?u" by (simp only: map_nth)
  finally have un: "(\<Union>r\<in>set fold_results. set (X_test r)) = set ?u" .
  have lk: "length fold_results = nat n_splits" using len k by simp
  from cv u2 run lk all pair un rep show ?thesis by (intro exI conjI)
qed

text \<open>
  Dataset names without a character of code 0 at the end are stored as they are.
\<close>

lemma np_str_x: "np_str ''x'' = ''x''" "np_str ''y'' = ''y''"
  by (simp_all add: np_str_def)

text \<open>
  The theorem at two datasets with the parents 1 and 2, two splits and the counter as
  generator.
\<close>

theorem cv_folds_partition_witness:
  "(2 :: int) \<le> 2
   \<and> two_parents (np_str ''x'') = Some 1
   \<and> two_parents (np_str ''y'') = Some 2
   \<and> - (2 ^ 63) \<le> (1 :: int) \<and> (2 :: int) < 2 ^ 63
   \<and> nat 2 \<le> card {p. \<exists>d\<in>set [''x'', ''y'']. two_parents (np_str d) = Some p}
   \<and> (\<exists>cv fold_results.
         cv_init 2 [''x'', ''y''] two_parents const_subset (Some []) [] Ray = Inr cv
       \<and> set (cv_unique_datasets cv)
           = {p. \<exists>d\<in>set [''x'', ''y'']. two_parents (np_str d) = Some p}
       \<and> run exact_add counter_random 0 cv = Inr fold_results
       \<and> length fold_results = nat 2
       \<and> (\<forall>r\<in>set fold_results.
             set (X_train r) \<inter> set (X_test r) = {}
           \<and> set (X_train r) \<union> set (X_test r) = set (cv_unique_datasets cv))
       \<and> (\<forall>i<length fold_results. \<forall>j<length fold_results. i \<noteq> j \<longrightarrow>
             set (X_test (fold_results ! i)) \<inter> set (X_test (fold_results ! j)) = {})
       \<and> (\<Union>r\<in>set fold_results. set (X_test r)) = set (cv_unique_datasets cv)
       \<and> (\<forall>other_state. run exact_add counter_random other_state cv = Inr fold_results))"
  (is "?h1 \<and> ?x \<and> ?y \<and> ?lo \<and> ?hi \<and> ?h4 \<and> ?c")
proof -
  have h1: ?h1 by simp
  have x: ?x and y: ?y by (simp_all add: np_str_x two_parents_def)
  have lo: ?lo and hi: ?hi by simp_all
  have h2: "\<forall>d\<in>set [''x'', ''y'']. two_parents (np_str d) \<noteq> None"
    using x y by simp
  have h3: "\<forall>d\<in>set [''x'', ''y'']. \<forall>p. two_parents (np_str d) = Some p
              \<longrightarrow> - (2 ^ 63) \<le> p \<and> p < 2 ^ 63"
    using x y by simp
  have "{p. \<exists>d\<in>set [''x'', ''y'']. two_parents (np_str d) = Some p} = {1, 2}"
    using x y by auto
  then have h4: ?h4 by simp
  have c: ?c
    by (rule cv_folds_partition [OF h1 h2 h3 h4, where scorer_subset = const_subset
          and configs = "Some []" and get_configs = "[]" and b = Ray
          and float_add = exact_add and np = counter_random and global_state = 0])
  from h1 x y lo hi h4 c show ?thesis by (intro conjI)
qed

text \<open>The constructor on one dataset.\<close>

lemma one_init_loop:
  "init_loop two_parents [''x''] {} Map.empty = Inr ({1}, [1 \<mapsto> [''x'']])"
  by (simp add: two_parents_def)

lemma one_cv_init:
  "cv_init 2 [''x''] two_parents const_subset (Some []) [] Ray
     = Inr \<lparr>cv_n_splits = 2, cv_backend = Ray, cv_subset = const_subset,
            cv_unique_datasets = [1],
            cv_dataset_parent_to_fold_map = (\<lambda>d. map_option sort ([1 \<mapsto> [''x'']] d)),
            cv_configs = [],
            cv_kf = \<lparr>kf_n_splits = 2, kf_shuffle = True, kf_random_state = Some 0\<rparr>\<rparr>"
  unfolding cv_init_def list.map np_str_x one_init_loop
  by (simp add: KFold_init_def np_array_def)

text \<open>
  C5, as stated for every universe and every \<^verbatim>\<open>n_splits\<close> from 2 on, fails when there
  are fewer parents than splits: with one dataset, of parent 1, and \<^verbatim>\<open>n_splits = 2\<close> the
  constructor returns, and \<^verbatim>\<open>run\<close> raises \<^verbatim>\<open>ValueError\<close> (the splitter refuses more
  splits than samples) and produces no record, so that no test set holds the parent 1.
\<close>

theorem cv_run_raises:
  "\<exists>cv. cv_init 2 [''x''] two_parents const_subset (Some []) [] Ray = Inr cv
     \<and> cv_unique_datasets cv = [1]
     \<and> run exact_add counter_random 0 cv = Inl ValueError"
  unfolding one_cv_init by (simp add: run_def KFold_split_def)

text \<open>The seeded splitter on two samples, with the counter as generator.\<close>

lemma upt_two: "[0..<2] = [0, Suc 0]" "[0..<nat 2] = [0, Suc 0]"
  by (simp_all add: numeral_2_eq_2)

lemma shuffle_two:
  "np_shuffle counter_random 0 [0, Suc 0] = ([Suc 0, 0], Suc 0)"
  "np_shuffle counter_random (Suc 0) [0, Suc 0] = ([0, Suc 0], Suc (Suc 0))"
  by (simp_all add: np_shuffle_def counter_random_def Let_def)

lemma split_two_seeded:
  "KFold_split counter_random g \<lparr>kf_n_splits = 2, kf_shuffle = True, kf_random_state = Some 0\<rparr> 2
     = Inr [([0], [Suc 0]), ([Suc 0], [0])]"
proof -
  have "check_random_state counter_random g (Some 0) = 0"
    by (simp add: check_random_state_def counter_random_def)
  then show ?thesis
    by (simp add: KFold_split_def iter_test_indices_def Let_def upt_two shuffle_two)
qed

text \<open>
  The run of the example with two parents: the seeded shuffle of the indices 0, 1 gives
  1, 0, so that the first fold tests the parent at index 1 and the second the parent at
  index 0.
\<close>

lemma two_init_loop:
  "init_loop two_parents [''x'', ''y''] {} Map.empty
     = Inr ({1, 2}, [1 \<mapsto> [''x''], 2 \<mapsto> [''y'']])"
  by (simp add: two_parents_def insert_commute)

lemma two_sorted: "sorted_list_of_set {1::int, 2} = [1, 2]"
  by simp

lemma two_cv_init:
  "cv_init 2 [''x'', ''y''] two_parents const_subset (Some []) [] Ray
     = Inr \<lparr>cv_n_splits = 2, cv_backend = Ray, cv_subset = const_subset,
            cv_unique_datasets = [1, 2],
            cv_dataset_parent_to_fold_map =
              (\<lambda>d. map_option sort ([1 \<mapsto> [''x''], 2 \<mapsto> [''y'']] d)),
            cv_configs = [],
            cv_kf = \<lparr>kf_n_splits = 2, kf_shuffle = True, kf_random_state = Some 0\<rparr>\<rparr>"
  unfolding cv_init_def list.map np_str_x two_init_loop
  by (simp only: fst_conv snd_conv two_sorted sum.case) (simp add: KFold_init_def np_array_def)

lemma run_fold_no_configs:
  "cv_configs cv = [] \<Longrightarrow>
   run_fold float_add cv a b = Inr ([], cv_subset cv b [])"
  by (simp add: run_fold_def eval_select)

lemma two_run:
  "\<exists>cv. cv_init 2 [''x'', ''y''] two_parents const_subset (Some []) [] Ray = Inr cv
     \<and> run exact_add counter_random g cv
         = Inr [\<lparr>fold_nr = 1, X_train = [1], X_test = [2],
                  X_train_fold = [''x''], X_test_fold = [''y''],
                  score = 1000000000, selected_configs = []\<rparr>,
                \<lparr>fold_nr = 2, X_train = [2], X_test = [1],
                  X_train_fold = [''y''], X_test_fold = [''x''],
                  score = 1000000000, selected_configs = []\<rparr>]"
  unfolding two_cv_init
  by (simp add: run_def split_two_seeded [unfolded numeral_2_eq_2] index_array_def
        run_fold_no_configs const_subset_def sentinel_scorer_def)

text \<open>
  A splitter without a seed reads the global generator: in two states of the generator
  it gives different folds.
\<close>

lemma split_two_unseeded:
  "KFold_split counter_random 0 \<lparr>kf_n_splits = 2, kf_shuffle = True, kf_random_state = None\<rparr> 2
     = Inr [([0], [Suc 0]), ([Suc 0], [0])]"
  "KFold_split counter_random (Suc 0) \<lparr>kf_n_splits = 2, kf_shuffle = True, kf_random_state = None\<rparr> 2
     = Inr [([Suc 0], [0]), ([0], [Suc 0])]"
  by (simp_all add: KFold_split_def iter_test_indices_def check_random_state_def Let_def upt_two
        shuffle_two)

text \<open>
  Parents that do not fit one integer type: the array of the parents \<open>-1\<close> and
  \<open>2^63 + 1\<close> holds floats, \<open>2^63 + 1\<close> is read back as \<open>2^63\<close>, which is not a key of
  the dictionary, and \<^verbatim>\<open>run\<close> raises \<^verbatim>\<open>KeyError\<close>.
\<close>

lemma excess_bits_ex: "excess_bits 9223372036854775809 = 11"
  by (simp add: excess_bits.simps)

lemma float64_ex1:
  "float64 9223372036854775809 = 9223372036854775808"
  unfolding float64_def Let_def by (simp add: excess_bits_ex)

lemma np_array_far:
  "np_array [- 1, 9223372036854775809] = [- 1, 9223372036854775808]"
  by (simp add: np_array_def float64_ex1 float64_small)

lemma far_init_loop:
  "init_loop far_parents [''x'', ''y''] {} Map.empty
     = Inr ({- 1, 9223372036854775809}, [- 1 \<mapsto> [''x''], 9223372036854775809 \<mapsto> [''y'']])"
  by (simp add: far_parents_def insert_commute)

lemma far_sorted:
  "sorted_list_of_set {- 1 :: int, 9223372036854775809} = [- 1, 9223372036854775809]"
  by simp

lemma far_cv_init:
  "cv_init 2 [''x'', ''y''] far_parents const_subset (Some []) [] Ray
     = Inr \<lparr>cv_n_splits = 2, cv_backend = Ray, cv_subset = const_subset,
            cv_unique_datasets = [- 1, 9223372036854775808],
            cv_dataset_parent_to_fold_map =
              (\<lambda>d. map_option sort
                     ([- 1 \<mapsto> [''x''], 9223372036854775809 \<mapsto> [''y'']] d)),
            cv_configs = [],
            cv_kf = \<lparr>kf_n_splits = 2, kf_shuffle = True, kf_random_state = Some 0\<rparr>\<rparr>"
  unfolding cv_init_def list.map np_str_x far_init_loop
  by (simp only: fst_conv snd_conv far_sorted np_array_far sum.case) (simp add: KFold_init_def)

lemma far_parents_key_error:
  "\<exists>cv. cv_init 2 [''x'', ''y''] far_parents const_subset (Some []) [] Ray = Inr cv
     \<and> cv_unique_datasets cv = [- 1, 9223372036854775808]
     \<and> run exact_add counter_random 0 cv = Inl KeyError"
  unfolding far_cv_init
  by (simp add: run_def split_two_seeded [unfolded numeral_2_eq_2] index_array_def)

end
